theory Spec2Isabelle
  imports Main "HOL-Library.Sublist"
begin

section \<open>Strings\<close>

text \<open>
  Strings are lists of characters; a character stands for a code point below 256.
  \<open>str.strip()\<close> removes the white space of \<open>str.isspace\<close> at both ends,
  \<open>str.lower()\<close> maps the capital letters of that range to their small letters, and
  \<open>sub in s\<close> is the contiguous-sublist test.
\<close>

definition whitespace :: string where
  "whitespace = [CHR 0x09, CHR 0x0A, CHR 0x0B, CHR 0x0C, CHR 0x0D,
                 CHR 0x1C, CHR 0x1D, CHR 0x1E, CHR 0x1F, CHR 0x20, CHR 0x85, CHR 0xA0]"

definition is_space :: "char \<Rightarrow> bool" where
  "is_space c = (c \<in> set whitespace)"

definition strip :: "string \<Rightarrow> string" where
  "strip s = rev (dropWhile is_space (rev (dropWhile is_space s)))"

definition lower_char :: "char \<Rightarrow> char" where
  "lower_char c =
     (let n = (of_char c :: nat) in
      if (65 \<le> n \<and> n \<le> 90) \<or> (192 \<le> n \<and> n \<le> 222 \<and> n \<noteq> 215) then char_of (n + 32) else c)"

definition lower :: "string \<Rightarrow> string" where
  "lower s = map lower_char s"

definition str_in :: "string \<Rightarrow> string \<Rightarrow> bool" where
  "str_in sub s = sublist sub s"

section \<open>Python values and dictionaries\<close>

text \<open>
  The values a hotel record holds while the scraper runs: \<open>None\<close>, a boolean, a string,
  a list of strings (amenity titles, nearby lines) or a dictionary from strings to strings
  (the overview table, \<open>{"parking_info": ...}\<close>, \<open>{"policy": ...}\<close>).
\<close>

datatype pyval =
    PNone
  | PBool bool
  | PStr string
  | PList "string list"
  | PDict "(string \<times> string) list"

text \<open>Python truthiness (\<open>if v:\<close>, \<open>not v\<close>, \<open>any([...])\<close>).\<close>

fun truthy :: "pyval \<Rightarrow> bool" where
  "truthy PNone = False"
| "truthy (PBool b) = b"
| "truthy (PStr s) = (s \<noteq> [])"
| "truthy (PList xs) = (xs \<noteq> [])"
| "truthy (PDict kvs) = (kvs \<noteq> [])"

text \<open>Lists and dictionaries are not hashable: using one in a dictionary key raises \<open>TypeError\<close>.\<close>

fun hashable :: "pyval \<Rightarrow> bool" where
  "hashable (PList xs) = False"
| "hashable (PDict kvs) = False"
| "hashable v = True"

text \<open>
  \<open>AttributeError\<close>: a string method called on a value that is not a string.
  \<open>WebDriverError\<close>: an exception of the browser driver (\<open>WebDriverException\<close> and its
  subclasses, \<open>StaleElementReferenceException\<close> among them) that no handler catches.
\<close>

datatype error = TypeError | AttributeError | WebDriverError

text \<open>A call into the browser either returns a value or raises.\<close>

datatype 'a outcome = Raised | Returned 'a

text \<open>
  A Python \<open>dict\<close> keeps its keys in insertion order: it is an association list with
  distinct keys. Assigning to a key that is present replaces the value in place, assigning
  to a new key appends.
\<close>

type_synonym ('k, 'v) pydict = "('k \<times> 'v) list"

fun dict_set :: "('k, 'v) pydict \<Rightarrow> 'k \<Rightarrow> 'v \<Rightarrow> ('k, 'v) pydict" where
  "dict_set [] k v = [(k, v)]"
| "dict_set ((k', v') # d) k v = (if k' = k then (k, v) # d else (k', v') # dict_set d k v)"

definition dict_contains :: "('k, 'v) pydict \<Rightarrow> 'k \<Rightarrow> bool" where
  "dict_contains d k = (k \<in> set (map fst d))"

definition dict_values :: "('k, 'v) pydict \<Rightarrow> 'v list" where
  "dict_values d = map snd d"

text \<open>\<open>d.get(k)\<close>: the value at \<open>k\<close>, \<open>None\<close> when the key is absent.\<close>

definition dict_get :: "(string, pyval) pydict \<Rightarrow> string \<Rightarrow> pyval" where
  "dict_get d k = (case map_of d k of None \<Rightarrow> PNone | Some v \<Rightarrow> v)"

text \<open>\<open>d.update(e)\<close>: assign every item of \<open>e\<close>, in order.\<close>

fun dict_update :: "('k, 'v) pydict \<Rightarrow> ('k, 'v) pydict \<Rightarrow> ('k, 'v) pydict" where
  "dict_update d [] = d"
| "dict_update d ((k, v) # e) = dict_update (dict_set d k v) e"

text \<open>\<open>d.pop(k, None)\<close>, for its effect on \<open>d\<close>.\<close>

definition dict_pop :: "('k, 'v) pydict \<Rightarrow> 'k \<Rightarrow> ('k, 'v) pydict" where
  "dict_pop d k = filter (\<lambda>kv. fst kv \<noteq> k) d"

section \<open>The resumable store\<close>

type_synonym hotel = "(string, pyval) pydict"

type_synonym hotel_key = "pyval \<times> pyval"

text \<open>The identity key \<open>(h.get("hotel_code"), h.get("hotel_name"))\<close>.\<close>

definition key_of :: "hotel \<Rightarrow> hotel_key" where
  "key_of h = (dict_get h ''hotel_code'', dict_get h ''hotel_name'')"

definition hashable_key :: "hotel_key \<Rightarrow> bool" where
  "hashable_key k = (hashable (fst k) \<and> hashable (snd k))"

text \<open>
  \<open>append_or_merge(hotels, existing_map)\<close>. The global \<open>OVERWRITE\<close> is the first
  argument. The loop works on a copy of \<open>existing_map\<close>; hashing a key with a list or a
  dictionary in it raises \<open>TypeError\<close>, which nothing in the function catches.
\<close>

fun merge_loop :: "bool \<Rightarrow> hotel list \<Rightarrow> (hotel_key, hotel) pydict \<Rightarrow> error + (hotel_key, hotel) pydict" where
  "merge_loop OVERWRITE [] result_map = Inr result_map"
| "merge_loop OVERWRITE (h # hotels) result_map =
     (let key = key_of h in
      if \<not> hashable_key key then Inl TypeError
      else if dict_contains result_map key \<and> \<not> OVERWRITE then merge_loop OVERWRITE hotels result_map
      else merge_loop OVERWRITE hotels (dict_set result_map key h))"

definition append_or_merge :: "bool \<Rightarrow> hotel list \<Rightarrow> (hotel_key, hotel) pydict \<Rightarrow> error + hotel list" where
  "append_or_merge OVERWRITE hotels existing_map =
     (case merge_loop OVERWRITE hotels existing_map of
        Inl e \<Rightarrow> Inl e
      | Inr result_map \<Rightarrow> Inr (dict_values result_map))"

text \<open>
  The dictionary comprehension of \<open>main\<close>,
  \<open>{(h.get('hotel_code'), h.get('hotel_name')): h for h in all_hotels}\<close>.
\<close>

fun index_loop :: "hotel list \<Rightarrow> (hotel_key, hotel) pydict \<Rightarrow> error + (hotel_key, hotel) pydict" where
  "index_loop [] m = Inr m"
| "index_loop (h # hs) m =
     (if \<not> hashable_key (key_of h) then Inl TypeError
      else index_loop hs (dict_set m (key_of h) h))"

definition index_by_key :: "hotel list \<Rightarrow> error + (hotel_key, hotel) pydict" where
  "index_by_key all_hotels = index_loop all_hotels []"

text \<open>
  The store invariant: the keys are distinct (it is a dictionary), hashable, and each entry
  sits under the identity key of its record, as \<open>load_existing_output\<close> and the
  comprehension of \<open>main\<close> build it.
\<close>

definition keyed_store :: "(hotel_key, hotel) pydict \<Rightarrow> bool" where
  "keyed_store E = (distinct (map fst E) \<and> (\<forall>kv\<in>set E. fst kv = key_of (snd kv) \<and> hashable_key (fst kv)))"

section \<open>The hotel code of a URL\<close>

text \<open>
  \<open>get_hotel_code_from_url(url)\<close>. \<open>urlparse(url).path\<close> belongs to the Python
  library: it is the parameter \<open>urlparse_path\<close>, \<open>None\<close> where \<open>urlparse\<close> raises (the
  function catches every exception and returns \<open>None\<close>). The path loses its trailing
  slashes and is split at every slash.
\<close>

definition rstrip_slash :: "string \<Rightarrow> string" where
  "rstrip_slash s = rev (dropWhile (\<lambda>c. c = CHR ''/'') (rev s))"

fun split_slash :: "string \<Rightarrow> string list" where
  "split_slash [] = [[]]"
| "split_slash (c # cs) =
     (if c = CHR ''/'' then [] # split_slash cs
      else (case split_slash cs of [] \<Rightarrow> [[c]] | p # ps \<Rightarrow> (c # p) # ps))"

text \<open>\<open>re.match(r"^[a-z0-9]{5}$", p, re.I)\<close> on a segment of length five.\<close>

definition is_alnum :: "char \<Rightarrow> bool" where
  "is_alnum c = (let n = (of_char c :: nat) in
     (48 \<le> n \<and> n \<le> 57) \<or> (65 \<le> n \<and> n \<le> 90) \<or> (97 \<le> n \<and> n \<le> 122))"

definition is_code_segment :: "string \<Rightarrow> bool" where
  "is_code_segment p = (length p = 5 \<and> list_all is_alnum p)"

fun code_loop :: "string list \<Rightarrow> string option" where
  "code_loop [] = None"
| "code_loop (p # parts) = (if is_code_segment p then Some (lower p) else code_loop parts)"

text \<open>\<open>p and p.lower() not in ("hoteldetail", "amenities")\<close>.\<close>

definition kept_segment :: "string \<Rightarrow> bool" where
  "kept_segment p = (p \<noteq> [] \<and> lower p \<notin> set [''hoteldetail'', ''amenities''])"

fun fallback_loop :: "string list \<Rightarrow> string option" where
  "fallback_loop [] = None"
| "fallback_loop (p # parts) =
     (if kept_segment p then Some (lower p) else fallback_loop parts)"

definition get_hotel_code_from_url :: "(string \<Rightarrow> string option) \<Rightarrow> string option \<Rightarrow> string option" where
  "get_hotel_code_from_url urlparse_path url =
     (case url of
        None \<Rightarrow> None
      | Some u \<Rightarrow>
          if u = [] then None
          else (case urlparse_path u of
                  None \<Rightarrow> None
                | Some p \<Rightarrow>
                    (let path = rstrip_slash p; parts = split_slash path in
                     case code_loop parts of
                       Some c \<Rightarrow> Some c
                     | None \<Rightarrow> fallback_loop (rev parts))))"

section \<open>The city enumerator\<close>

text \<open>
  \<open>IHGCitiesScraper.scrape_city_urls\<close>. The browser's answers are the page:
  whether \<open>driver.get\<close> returned (\<open>open_ok\<close>); what \<open>wait_presence\<close> gave, which
  catches \<open>TimeoutException\<close> only and returns \<open>None\<close> then (\<open>waited\<close>); what
  \<open>find_elements\<close> gave afterwards (\<open>found\<close>); and, for each element, its \<open>href\<close>
  attribute and its text, both read from the live page and so able to raise. The method has
  no \<open>try\<close>: whatever a call raises leaves it. The value \<open>wait_presence\<close> returned is
  bound to \<open>el\<close> and overwritten by the loop variable before anything reads it.
  \<open>seen\<close> is a Python set; only membership is asked of it.
\<close>

record link_el =
  el_href :: "string option outcome"
  el_text :: "string outcome"

record city =
  city_name :: string
  city_url :: string

record explore_page =
  open_ok :: bool
  waited :: "link_el option outcome"
  found :: "link_el list outcome"

definition keep_url :: "string \<Rightarrow> bool" where
  "keep_url url =
     (str_in ''ihg.com'' url \<and>
      (str_in ''hotels'' url \<or> str_in ''/explore/'' url \<or> str_in ''/destinations'' url
       \<or> str_in ''pet'' (lower url)))"

fun city_loop :: "link_el list \<Rightarrow> string list \<times> city list \<Rightarrow> error + string list \<times> city list" where
  "city_loop [] st = Inr st"
| "city_loop (el # links) (seen, cities) =
     (case el_href el of
        Raised \<Rightarrow> Inl WebDriverError
      | Returned url \<Rightarrow>
          (case el_text el of
             Raised \<Rightarrow> Inl WebDriverError
           | Returned t \<Rightarrow>
               (let name = strip t in
                case url of
                  None \<Rightarrow> city_loop links (seen, cities)
                | Some u \<Rightarrow>
                    if u = [] \<or> u \<in> set seen then city_loop links (seen, cities)
                    else if keep_url u
                      then city_loop links (seen @ [u], cities @ [\<lparr>city_name = name, city_url = u\<rparr>])
                      else city_loop links (seen, cities))))"

definition scrape_city_urls :: "explore_page \<Rightarrow> error + city list" where
  "scrape_city_urls page =
     (if \<not> open_ok page then Inl WebDriverError
      else case waited page of
        Raised \<Rightarrow> Inl WebDriverError
      | Returned el \<Rightarrow>
          (case found page of
             Raised \<Rightarrow> Inl WebDriverError
           | Returned links \<Rightarrow>
               (case city_loop links ([], []) of Inl e \<Rightarrow> Inl e | Inr st \<Rightarrow> Inr (snd st))))"

section \<open>Phone extraction\<close>

text \<open>
  \<open>IHGHotelScraper._extract_phone\<close>. Both \<open>try\<close> blocks of the method catch
  every exception of a call into the browser and go on. The page is seen
  through the \<open>tel:\<close> links (the list itself and the \<open>href\<close> of each link may
  raise) and the text of the body.
\<close>

text \<open>\<open>href.replace("tel:", "")\<close>: every occurrence is removed, left to right.\<close>

fun remove_tel :: "string \<Rightarrow> string" where
  "remove_tel [] = []"
| "remove_tel (c # cs) =
     (if prefix ''tel:'' (c # cs) then remove_tel (drop 3 cs) else c # remove_tel cs)"

fun tel_loop :: "string option outcome list \<Rightarrow> string option" where
  "tel_loop [] = None"
| "tel_loop (Raised # tel_links) = None"
| "tel_loop (Returned a # tel_links) =
     (let href = (case a of None \<Rightarrow> [] | Some h \<Rightarrow> h);
          num = strip (remove_tel href)
      in if num \<noteq> [] then Some num else tel_loop tel_links)"

text \<open>
  \<open>re.search(r"(\+?\d[\d\-\(\) \.]{7,}\d)", body_text)\<close>: the leftmost match, the
  repetition greedy. At a position, after the optional plus sign and a digit, the repetition
  first takes the whole run of digits and separators and then gives characters back until the
  next one is a digit: the match ends at the last digit of the run, and exists when at least
  seven characters lie between the first digit and that last one.
\<close>

definition is_digit :: "char \<Rightarrow> bool" where
  "is_digit c = (let n = (of_char c :: nat) in 48 \<le> n \<and> n \<le> 57)"

definition is_phone_char :: "char \<Rightarrow> bool" where
  "is_phone_char c = (is_digit c \<or> c \<in> set ''-() .'')"

definition phone_tail :: "string \<Rightarrow> string option" where
  "phone_tail s =
     (case s of
        [] \<Rightarrow> None
      | d # rest \<Rightarrow>
          if \<not> is_digit d then None
          else (let run = takeWhile is_phone_char rest;
                    m = rev (dropWhile (\<lambda>c. \<not> is_digit c) (rev run))
                in if 8 \<le> length m then Some (d # m) else None))"

definition phone_match_at :: "string \<Rightarrow> string option" where
  "phone_match_at s =
     (case s of
        [] \<Rightarrow> None
      | c # r \<Rightarrow>
          if c = CHR ''+'' then (case phone_tail r of None \<Rightarrow> None | Some m \<Rightarrow> Some (c # m))
          else phone_tail s)"

fun phone_search :: "string \<Rightarrow> string option" where
  "phone_search [] = None"
| "phone_search (c # cs) =
     (case phone_match_at (c # cs) of Some m \<Rightarrow> Some m | None \<Rightarrow> phone_search cs)"

record phone_view =
  tel_links :: "string option outcome list outcome"
  body_text :: "string outcome"

definition tel_number :: "phone_view \<Rightarrow> string option" where
  "tel_number page = (case tel_links page of Raised \<Rightarrow> None | Returned ls \<Rightarrow> tel_loop ls)"

definition body_number :: "phone_view \<Rightarrow> string option" where
  "body_number page =
     (case body_text page of
        Raised \<Rightarrow> None
      | Returned t \<Rightarrow> (case phone_search t of None \<Rightarrow> None | Some m \<Rightarrow> Some (strip m)))"

definition extract_phone :: "phone_view \<Rightarrow> string option" where
  "extract_phone page =
     (case tel_number page of Some num \<Rightarrow> Some num | None \<Rightarrow> body_number page)"

section \<open>JSON text\<close>

text \<open>
  \<open>json.dumps(v, ensure_ascii=False)\<close> on the values of a record. A string is written
  between double quotes with the quote, the backslash and the control characters escaped
  (the short escapes for backspace, form feed, newline, carriage return and tab, the
  four-digit form for the other code points below 32); the items of a list and of a
  dictionary are separated by a comma and a space, a key and its value by a colon and a
  space.
\<close>

definition hex_digit :: "nat \<Rightarrow> char" where
  "hex_digit n = ''0123456789abcdef'' ! (n mod 16)"

definition json_escape_char :: "char \<Rightarrow> string" where
  "json_escape_char c =
     (if c = CHR 0x22 then [CHR 0x5C, CHR 0x22]
      else if c = CHR 0x5C then [CHR 0x5C, CHR 0x5C]
      else if c = CHR 0x08 then [CHR 0x5C, CHR ''b'']
      else if c = CHR 0x0C then [CHR 0x5C, CHR ''f'']
      else if c = CHR 0x0A then [CHR 0x5C, CHR ''n'']
      else if c = CHR 0x0D then [CHR 0x5C, CHR ''r'']
      else if c = CHR 0x09 then [CHR 0x5C, CHR ''t'']
      else if (of_char c :: nat) < 32
        then [CHR 0x5C, CHR ''u'', CHR ''0'', CHR ''0'',
              hex_digit ((of_char c :: nat) div 16), hex_digit (of_char c :: nat)]
      else [c])"

definition json_quote :: "string \<Rightarrow> string" where
  "json_quote s = CHR 0x22 # concat (map json_escape_char s) @ [CHR 0x22]"

fun join_comma :: "string list \<Rightarrow> string" where
  "join_comma [] = []"
| "join_comma [x] = x"
| "join_comma (x # y # ys) = x @ '', '' @ join_comma (y # ys)"

fun json_dumps :: "pyval \<Rightarrow> string" where
  "json_dumps PNone = ''null''"
| "json_dumps (PBool b) = (if b then ''true'' else ''false'')"
| "json_dumps (PStr s) = json_quote s"
| "json_dumps (PList xs) = ''['' @ join_comma (map json_quote xs) @ '']''"
| "json_dumps (PDict kvs) =
     ''{'' @ join_comma (map (\<lambda>kv. json_quote (fst kv) @ '': '' @ json_quote (snd kv)) kvs) @ ''}''"

section \<open>The detail page\<close>

text \<open>
  The browser is seen through its answers. A view holds what the calls into the browser
  give on a page, a call that raises being \<open>Raised\<close>; the functions below are the Python
  methods with those answers as arguments. The probes \<open>_extract_description_text\<close>,
  \<open>_extract_highlights_section\<close>, \<open>_scrape_amenities_list_from_page\<close>,
  \<open>_scrape_overview_table_from_page\<close>, \<open>_scrape_nearby_from_page\<close>,
  \<open>_scrape_airport_from_page\<close> and \<open>_collect_section_text\<close> catch every exception
  themselves; what each of them returned (\<open>None\<close>, a string, a list of strings, a
  dictionary of strings) is part of the view.
\<close>

definition opt_str :: "string option \<Rightarrow> pyval" where
  "opt_str x = (case x of None \<Rightarrow> PNone | Some s \<Rightarrow> PStr s)"

definition opt_list :: "string list option \<Rightarrow> pyval" where
  "opt_list x = (case x of None \<Rightarrow> PNone | Some xs \<Rightarrow> PList xs)"

definition opt_dict :: "(string \<times> string) list option \<Rightarrow> pyval" where
  "opt_dict x = (case x of None \<Rightarrow> PNone | Some kvs \<Rightarrow> PDict kvs)"

text \<open>\<open>safe_text(el)\<close>: the stripped text, \<open>None\<close> when reading it raises.\<close>

definition safe_text :: "string outcome \<Rightarrow> string option" where
  "safe_text el = (case el of Raised \<Rightarrow> None | Returned t \<Rightarrow> Some (strip t))"

definition cleanup_price :: "string option \<Rightarrow> string option" where
  "cleanup_price text = (case text of None \<Rightarrow> None | Some t \<Rightarrow> if t = [] then None else Some (strip t))"

text \<open>\<open>any(w in s for w in ws)\<close> and \<open>" ".join(xs)\<close>.\<close>

definition any_in :: "string list \<Rightarrow> string \<Rightarrow> bool" where
  "any_in ws s = list_ex (\<lambda>w. str_in w s) ws"

fun join_space :: "string list \<Rightarrow> string" where
  "join_space [] = []"
| "join_space [x] = x"
| "join_space (x # y # ys) = x @ '' '' @ join_space (y # ys)"

text \<open>
  \<open>(v or "").lower()\<close> up to the call of \<open>lower\<close>: a true value that is not a string has
  no such method.
\<close>

fun str_or_empty :: "pyval \<Rightarrow> error + string" where
  "str_or_empty (PStr s) = Inr s"
| "str_or_empty v = (if truthy v then Inl AttributeError else Inr [])"

text \<open>
  \<open>_infer_pet_friendly(detail_dict)\<close>. \<open>json.loads\<close> is the parameter \<open>json_loads\<close>,
  \<open>None\<close> where it raises or where it gives a list that \<open>" ".join\<close> refuses: both end in
  the \<open>except\<close> branch.
\<close>

definition infer_pet_friendly :: "(string \<Rightarrow> pyval option) \<Rightarrow> hotel \<Rightarrow> error + bool" where
  "infer_pet_friendly json_loads detail_dict =
     (if truthy (dict_get detail_dict ''pets_json'') then Inr True
      else case str_or_empty (dict_get detail_dict ''description'') of
        Inl e \<Rightarrow> Inl e
      | Inr d \<Rightarrow>
          (let desc = lower d in
           if any_in [''pet-friendly'', ''pets allowed'', ''pet friendly'', ''pet-friendly hotel'', ''pet policy''] desc
           then Inr True
           else (case dict_get detail_dict ''amenities_json'' of
                   PList ams \<Rightarrow>
                     Inr (any_in [''pet'', ''pets allowed'', ''pet-friendly''] (lower (join_space ams)))
                 | PStr ams \<Rightarrow>
                     (case json_loads ams of
                        Some (PList lst) \<Rightarrow>
                          Inr (any_in [''pet'', ''pets allowed'', ''pet-friendly''] (lower (join_space lst)))
                      | _ \<Rightarrow> Inr False)
                 | _ \<Rightarrow> Inr False)))"

text \<open>
  A link of the page: its text and its \<open>href\<close>, as the browser gives them when asked.
  \<open>find_link\<close> is the loop \<open>for b in buttons: txt = (b.text or "").strip().lower();
  if ... in txt: btn = b; break\<close>: the first link whose text contains one of the
  phrases; reading a text may raise.
\<close>

type_synonym anchor = "string outcome \<times> string option outcome"

fun find_link :: "string list \<Rightarrow> anchor list \<Rightarrow> anchor option outcome" where
  "find_link phrases [] = Returned None"
| "find_link phrases (b # buttons) =
     (case fst b of
        Raised \<Rightarrow> Raised
      | Returned t \<Rightarrow>
          if any_in phrases (lower (strip t)) then Returned (Some b)
          else find_link phrases buttons)"

text \<open>
  \<open>_open_amenities_page_and_scrape\<close>. The whole body is in a \<open>try\<close> whose handler
  returns \<open>None\<close>. \<open>av_buttons\<close> are the links \<open>find_elements\<close> gives;
  \<open>av_nav_ok\<close> says that scrolling to the button, clicking it (directly or, failing that,
  by script), waiting for the body and going back all returned. The other fields are what
  the probes return on the amenities page.
\<close>

record amenities_view =
  av_buttons :: "anchor list outcome"
  av_nav_ok :: bool
  av_amenities :: "string list option"
  av_parking_text :: "string option"
  av_overview :: "(string \<times> string) list option"
  av_nearby :: "string list option"
  av_airport :: "string list option"
  av_phone :: phone_view

text \<open>\<open>_scrape_parking_from_page\<close>, on the text \<open>_collect_section_text\<close> returned.\<close>

definition scrape_parking_from_page :: "amenities_view \<Rightarrow> pyval" where
  "scrape_parking_from_page v =
     (case av_parking_text v of
        None \<Rightarrow> PNone
      | Some t \<Rightarrow> if t \<noteq> [] then PDict [(''parking_info'', t)] else PNone)"

definition amenities_data :: "amenities_view \<Rightarrow> hotel" where
  "amenities_data v =
     [(''amenities'', opt_list (av_amenities v)),
      (''parking'', scrape_parking_from_page v),
      (''overview'', opt_dict (av_overview v)),
      (''nearby'', opt_list (av_nearby v)),
      (''airport'', opt_list (av_airport v)),
      (''phone'', opt_str (extract_phone (av_phone v)))]"

definition open_amenities_page_and_scrape :: "amenities_view \<Rightarrow> hotel option" where
  "open_amenities_page_and_scrape v =
     (case av_buttons v of
        Raised \<Rightarrow> None
      | Returned buttons \<Rightarrow>
          (case find_link [''view all amenities''] buttons of
             Raised \<Rightarrow> None
           | Returned None \<Rightarrow> None
           | Returned (Some btn) \<Rightarrow>
               (case snd btn of
                  Raised \<Rightarrow> None
                | Returned None \<Rightarrow> None
                | Returned (Some href) \<Rightarrow>
                    if href = [] then None
                    else if \<not> av_nav_ok v then None
                    else (let data = amenities_data v in
                          if \<not> (truthy (dict_get data ''amenities'') \<or> truthy (dict_get data ''parking'')
                                \<or> truthy (dict_get data ''overview'') \<or> truthy (dict_get data ''nearby'')
                                \<or> truthy (dict_get data ''airport''))
                          then None
                          else Some data))))"

text \<open>
  \<open>_open_pet_policy_if_available\<close>, in the same way; \<open>pv_policy\<close> is what
  \<open>_collect_section_text\<close> returns on the policy page.
\<close>

record pets_view =
  pv_links :: "anchor list outcome"
  pv_nav_ok :: bool
  pv_policy :: "string option"

definition open_pet_policy_if_available :: "pets_view \<Rightarrow> pyval" where
  "open_pet_policy_if_available v =
     (case pv_links v of
        Raised \<Rightarrow> PNone
      | Returned links \<Rightarrow>
          (case find_link [''view pet policy'', ''pet policy''] links of
             Raised \<Rightarrow> PNone
           | Returned None \<Rightarrow> PNone
           | Returned (Some pet_link) \<Rightarrow>
               (case snd pet_link of
                  Raised \<Rightarrow> PNone
                | Returned None \<Rightarrow> PNone
                | Returned (Some href) \<Rightarrow>
                    if href = [] then PNone
                    else if \<not> pv_nav_ok v then PNone
                    else (case pv_policy v of
                            None \<Rightarrow> PNone
                          | Some policy \<Rightarrow>
                              if policy \<noteq> [] then PDict [(''policy'', policy)] else PNone))))"

text \<open>
  \<open>scrape_hotel_detail(url)\<close>. \<open>dv_tab_ok\<close>: reading the window handle and opening the
  new tab return (they stand before the first \<open>try\<close>). \<open>dv_nav_ok\<close>: \<open>self.open(url)\<close>
  returns; when it raises, \<open>dv_close_ok\<close> says that closing the tab and switching back,
  in the handler, return. \<open>dv_description\<close> and \<open>dv_highlights\<close> are what
  \<open>_extract_description_text\<close> and \<open>_extract_highlights_section\<close> return. The second
  \<open>try\<close> has a \<open>finally\<close> and no \<open>except\<close>: an exception of \<open>_infer_pet_friendly\<close>
  leaves the function.
\<close>

record detail_view =
  dv_tab_ok :: bool
  dv_nav_ok :: bool
  dv_close_ok :: bool
  dv_description :: "string option"
  dv_highlights :: "string list option"
  dv_phone :: phone_view
  dv_amenities :: amenities_view
  dv_pets :: pets_view

definition detail_out :: hotel where
  "detail_out =
     [(''phone'', PNone), (''description'', PNone), (''overview_table_json'', PNone),
      (''pets_json'', PNone), (''parking_json'', PNone), (''amenities_json'', PNone),
      (''nearby_json'', PNone), (''airport_json'', PNone), (''is_pet_friendly'', PNone)]"

text \<open>\<open>if data.get(k): out[key] = data[k]\<close>.\<close>

definition take_if :: "hotel \<Rightarrow> string \<Rightarrow> string \<Rightarrow> hotel \<Rightarrow> hotel" where
  "take_if data k key out = (if truthy (dict_get data k) then dict_set out key (dict_get data k) else out)"

definition merge_amenities_data :: "hotel option \<Rightarrow> hotel \<Rightarrow> hotel" where
  "merge_amenities_data amenities_detail_data out =
     (case amenities_detail_data of
        None \<Rightarrow> out
      | Some data \<Rightarrow>
          if data = [] then out
          else (let out1 = take_if data ''amenities'' ''amenities_json'' out;
                    out2 = take_if data ''parking'' ''parking_json'' out1;
                    out3 = take_if data ''overview'' ''overview_table_json'' out2;
                    out4 = take_if data ''nearby'' ''nearby_json'' out3;
                    out5 = take_if data ''airport'' ''airport_json'' out4
                in if truthy (dict_get data ''phone'') \<and> \<not> truthy (dict_get out5 ''phone'')
                   then dict_set out5 ''phone'' (dict_get data ''phone'') else out5))"

definition scrape_hotel_detail :: "(string \<Rightarrow> pyval option) \<Rightarrow> string \<Rightarrow> detail_view \<Rightarrow> error + hotel" where
  "scrape_hotel_detail json_loads url view =
     (if url = [] then Inr detail_out
      else if \<not> dv_tab_ok view then Inl WebDriverError
      else if \<not> dv_nav_ok view then (if dv_close_ok view then Inr detail_out else Inl WebDriverError)
      else
        (let out1 = dict_set detail_out ''description'' (opt_str (dv_description view));
             highlights = opt_list (dv_highlights view);
             out2 = (if truthy highlights then dict_set out1 ''amenities_json'' highlights else out1);
             phone = opt_str (extract_phone (dv_phone view));
             out3 = (if truthy phone then dict_set out2 ''phone'' phone else out2);
             out4 = merge_amenities_data (open_amenities_page_and_scrape (dv_amenities view)) out3;
             pets_data = open_pet_policy_if_available (dv_pets view)
         in if truthy pets_data
            then Inr (dict_set (dict_set out4 ''pets_json'' pets_data) ''is_pet_friendly'' (PBool True))
            else (case infer_pet_friendly json_loads out4 of
                    Inl e \<Rightarrow> Inl e
                  | Inr b \<Rightarrow> Inr (dict_set out4 ''is_pet_friendly'' (PBool b)))))"

section \<open>The hotel cards of a city page\<close>

text \<open>
  One card of the list, as the loop of \<open>scrape_city\<close> sees it. The handler of the loop
  catches \<open>NoSuchElementException\<close>, \<open>StaleElementReferenceException\<close> and
  \<open>WebDriverException\<close>, that is every exception of the browser driver, and goes on with
  the next card. \<open>cv_title\<close> is the title link, \<open>Raised\<close> when \<open>find_element\<close>
  raises (the link is missing or the card is stale). An optional element (address, price,
  currency, rating) is \<open>Returned None\<close> when \<open>find_element\<close> raises
  \<open>NoSuchElementException\<close>, which the inner handler catches, \<open>Raised\<close> when it
  raises anything else, and else gives the text of the element when asked.
  \<open>cv_now\<close> is \<open>now_iso()\<close>.
\<close>

record card_view =
  cv_title :: "anchor outcome"
  cv_address :: "string outcome option outcome"
  cv_amenity_labels :: "string outcome list outcome"
  cv_price :: "string outcome option outcome"
  cv_currency :: "string outcome option outcome"
  cv_rating :: "string outcome option outcome"
  cv_now :: string
  cv_detail :: detail_view

text \<open>
  \<open>try: el = card.find_element(...); x = safe_text(el)
  except NoSuchElementException: x = None\<close>.
\<close>

definition find_text :: "string outcome option outcome \<Rightarrow> string option outcome" where
  "find_text r =
     (case r of
        Raised \<Rightarrow> Raised
      | Returned None \<Rightarrow> Returned None
      | Returned (Some el) \<Rightarrow> Returned (safe_text el))"

definition extract_currency_from_card :: "card_view \<Rightarrow> string option outcome" where
  "extract_currency_from_card hcard =
     (case cv_currency hcard of
        Raised \<Rightarrow> Raised
      | Returned None \<Rightarrow> Returned None
      | Returned (Some cur) \<Rightarrow> Returned (safe_text cur))"

text \<open>\<open>label = safe_text(li); if label: card_amenities.append(label)\<close>.\<close>

fun card_amenities_loop :: "string outcome list \<Rightarrow> string list" where
  "card_amenities_loop [] = []"
| "card_amenities_loop (li # lis) =
     (case safe_text li of
        None \<Rightarrow> card_amenities_loop lis
      | Some label \<Rightarrow> if label \<noteq> [] then label # card_amenities_loop lis else card_amenities_loop lis)"

text \<open>
  \<open>f"{price_value} {currency}".strip() if price_value else None\<close>: in the formatted
  string \<open>None\<close> prints as \<open>None\<close>.
\<close>

definition card_price_of :: "string option \<Rightarrow> string option \<Rightarrow> pyval" where
  "card_price_of price_value currency =
     (case price_value of
        None \<Rightarrow> PNone
      | Some p \<Rightarrow>
          if p = [] then PNone
          else PStr (strip (p @ '' '' @ (case currency of None \<Rightarrow> ''None'' | Some c \<Rightarrow> c))))"

text \<open>The base record: the dictionary literal \<open>hotel_record = {...}\<close>.\<close>

definition base_record ::
  "(string \<Rightarrow> string option) \<Rightarrow> city \<Rightarrow> string \<Rightarrow> string \<Rightarrow> string option \<Rightarrow> string option
     \<Rightarrow> string option \<Rightarrow> string list \<Rightarrow> string option \<Rightarrow> string option \<Rightarrow> hotel" where
  "base_record urlparse_path c now hotel_url hotel_name address rating card_amenities price_value currency =
     [(''hotel_code'', opt_str (get_hotel_code_from_url urlparse_path (Some hotel_url))),
      (''hotel_name'', opt_str hotel_name),
      (''address'', opt_str address),
      (''phone'', PNone),
      (''rating'', opt_str rating),
      (''description'', PNone),
      (''card_price'', card_price_of price_value currency),
      (''overview_table_json'', PNone),
      (''pets_json'', PNone),
      (''parking_json'', PNone),
      (''amenities_json'',
         (if card_amenities \<noteq> [] then PStr (json_dumps (PList card_amenities)) else PNone)),
      (''nearby_json'', PNone),
      (''airport_json'', PNone),
      (''is_pet_friendly'', PNone),
      (''last_updated'', PStr now),
      (''_detail_url'', PStr hotel_url),
      (''_city'', PStr (city_name c))]"

definition json_keys :: "string list" where
  "json_keys = [''overview_table_json'', ''pets_json'', ''parking_json'', ''amenities_json'',
                ''nearby_json'', ''airport_json'']"

text \<open>
  \<open>val = hotel_record.get(key); if val is not None and not isinstance(val, str):
  hotel_record[key] = json.dumps(val, ensure_ascii=False)\<close>, for each of the six keys.
\<close>

fun normalize_json :: "string list \<Rightarrow> hotel \<Rightarrow> hotel" where
  "normalize_json [] hotel_record = hotel_record"
| "normalize_json (key # keys) hotel_record =
     (case dict_get hotel_record key of
        PNone \<Rightarrow> normalize_json keys hotel_record
      | PStr s \<Rightarrow> normalize_json keys hotel_record
      | val \<Rightarrow> normalize_json keys (dict_set hotel_record key (PStr (json_dumps val))))"

text \<open>
  \<open>if isinstance(hotel_record.get("is_pet_friendly"), bool):
  hotel_record["is_pet_friendly"] = "true" if hotel_record["is_pet_friendly"] else "false"\<close>.
\<close>

definition coerce_pet_friendly :: "hotel \<Rightarrow> hotel" where
  "coerce_pet_friendly hotel_record =
     (case dict_get hotel_record ''is_pet_friendly'' of
        PBool b \<Rightarrow> dict_set hotel_record ''is_pet_friendly'' (PStr (if b then ''true'' else ''false''))
      | _ \<Rightarrow> hotel_record)"

text \<open>
  From \<open>hotel_record.update(detail)\<close> to the removal of the two helper keys: the record
  that is appended to \<open>hotels\<close>.
\<close>

definition finish_record :: "hotel \<Rightarrow> hotel \<Rightarrow> hotel" where
  "finish_record hotel_record detail =
     dict_pop (dict_pop
       (coerce_pet_friendly (normalize_json json_keys (dict_update hotel_record detail)))
       ''_detail_url'') ''_city''"

text \<open>
  The body of the loop of \<open>scrape_city\<close> for one card: \<open>Inr None\<close> when the handler of
  the loop skips the card, \<open>Inl\<close> when an exception that the handler does not catch
  leaves the loop.
\<close>

definition scrape_card ::
  "(string \<Rightarrow> string option) \<Rightarrow> (string \<Rightarrow> pyval option) \<Rightarrow> city \<Rightarrow> card_view \<Rightarrow> error + hotel option" where
  "scrape_card urlparse_path json_loads c hcard =
     (case cv_title hcard of
        Raised \<Rightarrow> Inr None
      | Returned name_el \<Rightarrow>
     (case snd name_el of
        Raised \<Rightarrow> Inr None
      | Returned href \<Rightarrow>
     (case find_text (cv_address hcard) of
        Raised \<Rightarrow> Inr None
      | Returned address \<Rightarrow>
     (case cv_amenity_labels hcard of
        Raised \<Rightarrow> Inr None
      | Returned lis \<Rightarrow>
     (case find_text (cv_price hcard) of
        Raised \<Rightarrow> Inr None
      | Returned pv \<Rightarrow>
     (case extract_currency_from_card hcard of
        Raised \<Rightarrow> Inr None
      | Returned currency \<Rightarrow>
     (case find_text (cv_rating hcard) of
        Raised \<Rightarrow> Inr None
      | Returned rating \<Rightarrow>
          (let hotel_name = safe_text (fst name_el);
               hotel_url = (case href of None \<Rightarrow> [] | Some h \<Rightarrow> h);
               card_amenities = card_amenities_loop lis;
               price_value = cleanup_price pv;
               hotel_record = base_record urlparse_path c (cv_now hcard) hotel_url hotel_name
                                address rating card_amenities price_value currency
           in case scrape_hotel_detail json_loads hotel_url (cv_detail hcard) of
                Inl e \<Rightarrow> if e = WebDriverError then Inr None else Inl e
              | Inr detail \<Rightarrow> Inr (Some (finish_record hotel_record detail))))))))))"




section \<open>Dictionary lemmas\<close>

lemma dict_set_absent: "k \<notin> fst ` set d \<Longrightarrow> dict_set d k v = d @ [(k, v)]"
  by (induction d) auto

lemma map_id_when: "\<forall>kv\<in>set d. fst kv \<noteq> k \<Longrightarrow> map (\<lambda>kv. if fst kv = k then (k, v) else kv) d = d"
  by (induction d) auto

lemma dict_set_present:
  "distinct (map fst d) \<Longrightarrow> k \<in> fst ` set d \<Longrightarrow>
   dict_set d k v = map (\<lambda>kv. if fst kv = k then (k, v) else kv) d"
proof (induction d)
  case Nil then show ?case by simp
next
  case (Cons a d)
  obtain k' v' where a: "a = (k', v')" by (cases a)
  show ?case
  proof (cases "k' = k")
    case True
    with Cons.prems a have "k \<notin> fst ` set d" by simp
    then have "\<forall>kv\<in>set d. fst kv \<noteq> k" by blast
    then show ?thesis using True a by (simp add: map_id_when)
  next
    case False
    with Cons a show ?thesis by simp
  qed
qed

lemma merge_loop_append:
  "merge_loop ow (xs @ ys) m =
     (case merge_loop ow xs m of Inl e \<Rightarrow> Inl e | Inr m' \<Rightarrow> merge_loop ow ys m')"
  by (cases ow; induction xs arbitrary: m) (simp_all add: Let_def)

lemma dict_set_keys:
  "map fst (dict_set d k v) = (if k \<in> fst ` set d then map fst d else map fst d @ [k])"
  by (induction d) force+

lemma dict_set_distinct: "distinct (map fst d) \<Longrightarrow> distinct (map fst (dict_set d k v))"
  by (simp add: dict_set_keys)

lemma dict_set_dom: "fst ` set (dict_set d k v) = insert k (fst ` set d)"
proof -
  have "set (map fst (dict_set d k v)) = insert k (set (map fst d))"
    unfolding dict_set_keys by (simp add: insert_absorb)
  then show ?thesis by simp
qed

section \<open>The merge loop\<close>

lemma first_index:
  assumes "k \<in> f ` set N"
  shows "\<exists>i<length N. f (N ! i) = k \<and> (\<forall>j<i. f (N ! j) \<noteq> k)"
proof -
  from assms obtain i where i: "i < length N \<and> f (N ! i) = k"
    by (auto simp: in_set_conv_nth)
  define i0 where "i0 = (LEAST i. i < length N \<and> f (N ! i) = k)"
  have a: "i0 < length N \<and> f (N ! i0) = k"
    unfolding i0_def using i by (rule LeastI)
  have b: "\<forall>j<i0. f (N ! j) \<noteq> k"
  proof (intro allI impI notI)
    fix j assume j: "j < i0" "f (N ! j) = k"
    with a have "j < length N \<and> f (N ! j) = k" by simp
    then have "i0 \<le> j" unfolding i0_def by (rule Least_le)
    with j show False by simp
  qed
  from a b show ?thesis by blast
qed

lemma merge_loop_keep:
  assumes "\<forall>h\<in>set N. hashable_key (key_of h)"
  shows "merge_loop False N E =
     Inr (E @ map (\<lambda>i. (key_of (N ! i), N ! i))
           [i\<leftarrow>[0..<length N]. key_of (N ! i) \<notin> fst ` set E \<and> (\<forall>j<i. key_of (N ! j) \<noteq> key_of (N ! i))])"
  using assms
proof (induction N rule: rev_induct)
  case Nil then show ?case by simp
next
  case (snoc h N)
  define P where "P = (\<lambda>M i. key_of (M ! i) \<notin> fst ` set E \<and> (\<forall>j<i. key_of (M ! j) \<noteq> key_of (M ! i)))"
  define A where "A = map (\<lambda>i. (key_of (N ! i), N ! i)) [i\<leftarrow>[0..<length N]. P N i]"
  have IH: "merge_loop False N E = Inr (E @ A)" using snoc unfolding A_def P_def by simp
  have hh: "hashable_key (key_of h)" using snoc.prems by simp
  have same: "[i\<leftarrow>[0..<length N]. P (N @ [h]) i] = [i\<leftarrow>[0..<length N]. P N i]"
    by (rule filter_cong) (simp_all add: P_def nth_append)
  have mapsame: "map (\<lambda>i. (key_of ((N @ [h]) ! i), (N @ [h]) ! i)) [i\<leftarrow>[0..<length N]. P N i] = A"
    unfolding A_def by (rule map_cong) (simp_all add: nth_append)
  have keysA1: "k \<in> fst ` set A \<Longrightarrow> k \<in> key_of ` set N \<and> k \<notin> fst ` set E" for k
  proof -
    assume "k \<in> fst ` set A"
    then obtain i where "i < length N" "P N i" "k = key_of (N ! i)"
      unfolding A_def by auto
    then show ?thesis unfolding P_def by simp
  qed
  have keysA2: "k \<in> key_of ` set N \<Longrightarrow> k \<notin> fst ` set E \<Longrightarrow> k \<in> fst ` set A" for k
  proof -
    assume k: "k \<in> key_of ` set N" "k \<notin> fst ` set E"
    from first_index [OF k(1)] obtain i where
      i: "i < length N" "key_of (N ! i) = k" "\<forall>j<i. key_of (N ! j) \<noteq> k" by blast
    with k have "P N i" unfolding P_def by simp
    with i have "i \<in> set [i\<leftarrow>[0..<length N]. P N i]" by simp
    then have "(key_of (N ! i), N ! i) \<in> set A" unfolding A_def by (simp add: image_iff) blast
    then have "fst (key_of (N ! i), N ! i) \<in> fst ` set A" by (rule imageI)
    with i show ?thesis by simp
  qed
  have Plast: "P (N @ [h]) (length N) \<longleftrightarrow> key_of h \<notin> fst ` set E \<and> key_of h \<notin> key_of ` set N"
  proof -
    have "(\<forall>j<length N. key_of ((N @ [h]) ! j) \<noteq> key_of h) \<longleftrightarrow> key_of h \<notin> key_of ` set N"
      by (simp add: nth_append image_iff all_set_conv_all_nth eq_commute)
    then show ?thesis unfolding P_def by simp
  qed
  have cont: "dict_contains (E @ A) (key_of h) \<longleftrightarrow> key_of h \<in> fst ` set E \<or> key_of h \<in> key_of ` set N"
    unfolding dict_contains_def using keysA1 keysA2 by (simp add: image_Un) blast
  have goal_eq: "map (\<lambda>i. (key_of ((N @ [h]) ! i), (N @ [h]) ! i)) [i\<leftarrow>[0..<length (N @ [h])]. P (N @ [h]) i]
      = A @ (if P (N @ [h]) (length N) then [(key_of h, h)] else [])"
    using same mapsame by simp
  show ?case
  proof (cases "dict_contains (E @ A) (key_of h)")
    case True
    with cont Plast have "\<not> P (N @ [h]) (length N)" by blast
    with goal_eq True IH hh show ?thesis
      unfolding P_def by (simp add: merge_loop_append)
  next
    case False
    with cont Plast have P: "P (N @ [h]) (length N)" by blast
    have "dict_set (E @ A) (key_of h) h = (E @ A) @ [(key_of h, h)]"
      using False by (intro dict_set_absent) (simp add: dict_contains_def image_Un)
    with goal_eq P False IH hh show ?thesis
      unfolding P_def by (simp add: merge_loop_append)
  qed
qed

lemma merge_loop_distinct:
  "distinct (map fst E) \<Longrightarrow> merge_loop ow N E = Inr M \<Longrightarrow> distinct (map fst M)"
proof (induction N arbitrary: E)
  case Nil then show ?case by simp
next
  case (Cons h N)
  show ?case
  proof (cases "dict_contains E (key_of h) \<and> \<not> ow")
    case True
    with Cons.prems have "merge_loop ow N E = Inr M"
      by (simp add: Let_def split: if_splits)
    with Cons.IH Cons.prems(1) show ?thesis by blast
  next
    case False
    with Cons.prems have "merge_loop ow N (dict_set E (key_of h) h) = Inr M"
      by (simp add: Let_def split: if_splits)
    with Cons.IH [OF dict_set_distinct [OF Cons.prems(1)]] show ?thesis by blast
  qed
qed

lemma last_filter_snoc:
  "last (filter Q (N @ [h])) = (if Q h then h else last (filter Q N))"
  by simp

lemma merge_loop_overwrite:
  assumes "\<forall>h\<in>set N. hashable_key (key_of h)" and dE: "distinct (map fst E)"
  shows "merge_loop True N E =
     Inr (map (\<lambda>kv. (fst kv, if fst kv \<in> key_of ` set N
                              then last [h\<leftarrow>N. key_of h = fst kv] else snd kv)) E
          @ map (\<lambda>i. (key_of (N ! i), last [h\<leftarrow>N. key_of h = key_of (N ! i)]))
           [i\<leftarrow>[0..<length N]. key_of (N ! i) \<notin> fst ` set E \<and> (\<forall>j<i. key_of (N ! j) \<noteq> key_of (N ! i))])"
  using assms(1)
proof (induction N rule: rev_induct)
  case Nil then show ?case by simp
next
  case (snoc h N)
  define P where "P = (\<lambda>M i. key_of (M ! i) \<notin> fst ` set E \<and> (\<forall>j<i. key_of (M ! j) \<noteq> key_of (M ! i)))"
  define W where "W = (\<lambda>M kv. (fst kv, if fst kv \<in> key_of ` set M
                              then last [h\<leftarrow>M. key_of h = fst kv] else snd (kv :: hotel_key \<times> hotel)))"
  define V where "V = (\<lambda>M i. (key_of (M ! i), last [h\<leftarrow>M. key_of h = key_of (M ! i)]))"
  define I where "I = [i\<leftarrow>[0..<length N]. P N i]"
  define m where "m = map (W N) E @ map (V N) I"
  define k where "k = key_of h"
  have IH: "merge_loop True N E = Inr m"
    using snoc unfolding m_def I_def P_def W_def V_def by simp
  have hh: "hashable_key (key_of h)" using snoc.prems by simp
  have dm: "distinct (map fst m)" using merge_loop_distinct [OF dE IH] .
  have same: "[i\<leftarrow>[0..<length N]. P (N @ [h]) i] = I"
    unfolding I_def by (rule filter_cong) (simp_all add: P_def nth_append)
  have Ilt: "i \<in> set I \<Longrightarrow> i < length N" for i unfolding I_def by simp
  have keysI1: "i \<in> set I \<Longrightarrow> key_of (N ! i) \<in> key_of ` set N \<and> key_of (N ! i) \<notin> fst ` set E" for i
    unfolding I_def P_def by simp
  have keysI2: "\<exists>i\<in>set I. key_of (N ! i) = k'" if k': "k' \<in> key_of ` set N" "k' \<notin> fst ` set E" for k'
  proof -
    from first_index [OF k'(1)] obtain i where
      i: "i < length N" "key_of (N ! i) = k'" "\<forall>j<i. key_of (N ! j) \<noteq> k'" by blast
    with k' have "P N i" unfolding P_def by simp
    with i have "i \<in> set I" unfolding I_def by simp
    with i show ?thesis by blast
  qed
  have keys_m: "fst ` set m = fst ` set E \<union> key_of ` set N"
  proof -
    have a: "fst ` set (map (W N) E) = fst ` set E" unfolding W_def by (simp add: image_image)
    have b: "fst ` set (map (V N) I) = key_of ` set N - fst ` set E"
    proof (rule set_eqI, rule iffI)
      fix x assume "x \<in> fst ` set (map (V N) I)"
      then obtain i where "i \<in> set I" "x = key_of (N ! i)" unfolding V_def by (auto simp: image_image)
      with keysI1 show "x \<in> key_of ` set N - fst ` set E" by simp
    next
      fix x assume "x \<in> key_of ` set N - fst ` set E"
      with keysI2 obtain i where i: "i \<in> set I" "key_of (N ! i) = x" by blast
      from i(1) have "V N i \<in> set (map (V N) I)" by simp
      moreover from i(2) have "fst (V N i) = x" by (simp add: V_def)
      ultimately show "x \<in> fst ` set (map (V N) I)" by (metis imageI)
    qed
    show ?thesis unfolding m_def using a b by (simp add: image_Un)
  qed
  have Plast: "P (N @ [h]) (length N) \<longleftrightarrow> k \<notin> fst ` set E \<and> k \<notin> key_of ` set N"
  proof -
    have "(\<forall>j<length N. key_of ((N @ [h]) ! j) \<noteq> key_of h) \<longleftrightarrow> key_of h \<notin> key_of ` set N"
      by (simp add: nth_append image_iff all_set_conv_all_nth eq_commute)
    then show ?thesis unfolding P_def k_def by simp
  qed
  have Wstep: "W (N @ [h]) kv = (if fst kv = k then (k, h) else W N kv)" for kv
    unfolding W_def k_def by (auto simp: image_iff)
  have Vstep: "V (N @ [h]) i = (if fst (V N i) = k then (k, h) else V N i)" if "i \<in> set I" for i
    using Ilt [OF that] unfolding V_def k_def by (simp add: nth_append)
  have fstW: "fst (W N kv) = fst kv" for kv by (simp add: W_def)
  have mapW: "map (W (N @ [h])) E = map (\<lambda>kv. if fst kv = k then (k, h) else kv) (map (W N) E)"
    unfolding map_map by (rule map_cong) (simp_all add: Wstep fstW)
  have mapV: "map (V (N @ [h])) I = map (\<lambda>kv. if fst kv = k then (k, h) else kv) (map (V N) I)"
    unfolding map_map by (rule map_cong) (simp_all add: Vstep)
  have Vlast: "V (N @ [h]) (length N) = (k, h)" unfolding V_def k_def by simp
  have goal_eq: "map (W (N @ [h])) E @ map (V (N @ [h])) [i\<leftarrow>[0..<length (N @ [h])]. P (N @ [h]) i]
      = map (\<lambda>kv. if fst kv = k then (k, h) else kv) m @ (if P (N @ [h]) (length N) then [(k, h)] else [])"
    using same mapW mapV Vlast unfolding m_def by simp
  have step: "merge_loop True (N @ [h]) E = Inr (dict_set m k h)"
    using IH hh by (simp add: merge_loop_append k_def)
  have "dict_set m k h = map (\<lambda>kv. if fst kv = k then (k, h) else kv) m @ (if P (N @ [h]) (length N) then [(k, h)] else [])"
  proof (cases "k \<in> fst ` set m")
    case True
    with keys_m Plast have "\<not> P (N @ [h]) (length N)" by blast
    with dict_set_present [OF dm True] show ?thesis by simp
  next
    case False
    with keys_m Plast have P: "P (N @ [h]) (length N)" by blast
    from False have "\<forall>kv\<in>set m. fst kv \<noteq> k" by blast
    then have "map (\<lambda>kv. if fst kv = k then (k, h) else kv) m = m" by (rule map_id_when)
    with dict_set_absent [OF False] P show ?thesis by simp
  qed
  with step goal_eq show ?case
    unfolding P_def W_def V_def by simp
qed

lemma merge_loop_keys:
  "merge_loop ow N E = Inr M \<Longrightarrow> fst ` set M = fst ` set E \<union> key_of ` set N"
proof (induction N arbitrary: E)
  case Nil then show ?case by simp
next
  case (Cons h N)
  show ?case
  proof (cases "dict_contains E (key_of h) \<and> \<not> ow")
    case True
    with Cons.prems have "merge_loop ow N E = Inr M"
      by (simp add: Let_def split: if_splits)
    from True have "key_of h \<in> fst ` set E" by (simp add: dict_contains_def)
    with Cons.IH [OF \<open>merge_loop ow N E = Inr M\<close>] show ?thesis by simp blast
  next
    case False
    with Cons.prems have "merge_loop ow N (dict_set E (key_of h) h) = Inr M"
      by (simp add: Let_def split: if_splits)
    from Cons.IH [OF this] show ?thesis by (simp add: dict_set_dom)
  qed
qed

lemma merge_loop_skip:
  "\<forall>h\<in>set N. hashable_key (key_of h) \<and> key_of h \<in> fst ` set M \<Longrightarrow> merge_loop False N M = Inr M"
  by (induction N) (simp_all add: Let_def dict_contains_def)

lemma index_loop_keyed:
  "keyed_store (acc @ M) \<Longrightarrow> index_loop (map snd M) acc = Inr (acc @ M)"
proof (induction M arbitrary: acc)
  case Nil then show ?case by simp
next
  case (Cons kv M)
  obtain k h where kv: "kv = (k, h)" by (cases kv)
  from Cons.prems have d0: "distinct (map fst (acc @ kv # M))"
    unfolding keyed_store_def by (rule conjunct1)
  then have d: "distinct (map fst acc @ fst kv # map fst M)" by simp
  from Cons.prems have al: "\<forall>x\<in>set (acc @ kv # M). fst x = key_of (snd x) \<and> hashable_key (fst x)"
    unfolding keyed_store_def by (rule conjunct2)
  have "kv \<in> set (acc @ kv # M)" by simp
  with al have "fst kv = key_of (snd kv) \<and> hashable_key (fst kv)" by blast
  then have "fst kv = key_of (snd kv)" "hashable_key (fst kv)" by blast+
  then have k1: "k = key_of h" "hashable_key k" unfolding kv fst_conv snd_conv .
  from d kv have "k \<notin> set (map fst acc)" by simp
  then have "k \<notin> fst ` set acc" by simp
  note k = k1 this
  from Cons.prems kv have "keyed_store ((acc @ [(k, h)]) @ M)" by simp
  from Cons.IH [OF this] k kv show ?case by (simp add: dict_set_absent)
qed

section \<open>Merging new records into the store\<close>

text \<open>
  C1 (as amended). With overwrite disabled, \<open>append_or_merge\<close> returns every entry of
  the existing mapping unchanged and in order, followed by each new record whose key is
  neither in the existing mapping nor carried by an earlier new record; every other new
  record is skipped. With overwrite enabled, no key of the existing mapping is dropped: an
  existing entry whose key some new record carries is replaced, in place, by the last new
  record with that key, the other entries are unchanged, and the new keys follow in order of
  first appearance, each with the last new record that carries it.
\<close>

theorem append_or_merge_result:
  assumes "\<forall>h\<in>set N. hashable_key (key_of h)" and "distinct (map fst E)"
  shows "append_or_merge False N E =
           Inr (dict_values E @ map (\<lambda>i. N ! i)
             [i\<leftarrow>[0..<length N]. key_of (N ! i) \<notin> fst ` set E \<and> (\<forall>j<i. key_of (N ! j) \<noteq> key_of (N ! i))])
       \<and> append_or_merge True N E =
           Inr (map (\<lambda>kv. if fst kv \<in> key_of ` set N then last [h\<leftarrow>N. key_of h = fst kv] else snd kv) E
             @ map (\<lambda>i. last [h\<leftarrow>N. key_of h = key_of (N ! i)])
             [i\<leftarrow>[0..<length N]. key_of (N ! i) \<notin> fst ` set E \<and> (\<forall>j<i. key_of (N ! j) \<noteq> key_of (N ! i))])"
  unfolding append_or_merge_def
  by (simp add: merge_loop_keep [OF assms(1)] merge_loop_overwrite [OF assms] dict_values_def comp_def)

theorem append_or_merge_result_witness:
  "list_all (\<lambda>h. hashable_key (key_of h))
         [[(''hotel_code'', PStr ''miaep''), (''hotel_name'', PStr ''Hotel X''), (''address'', PStr ''9 New St'')],
          [(''hotel_code'', PStr ''nycxx''), (''hotel_name'', PStr ''Hotel Y'')],
          [(''hotel_code'', PStr ''nycxx''), (''hotel_name'', PStr ''Hotel Y''), (''address'', PStr ''2 B St'')]]
   \<and> distinct (map fst [((PStr ''miaep'', PStr ''Hotel X''),
               [(''hotel_code'', PStr ''miaep''), (''hotel_name'', PStr ''Hotel X'')])])
   \<and> append_or_merge False
         [[(''hotel_code'', PStr ''miaep''), (''hotel_name'', PStr ''Hotel X''), (''address'', PStr ''9 New St'')],
          [(''hotel_code'', PStr ''nycxx''), (''hotel_name'', PStr ''Hotel Y'')],
          [(''hotel_code'', PStr ''nycxx''), (''hotel_name'', PStr ''Hotel Y''), (''address'', PStr ''2 B St'')]]
         [((PStr ''miaep'', PStr ''Hotel X''), [(''hotel_code'', PStr ''miaep''), (''hotel_name'', PStr ''Hotel X'')])]
       = Inr [[(''hotel_code'', PStr ''miaep''), (''hotel_name'', PStr ''Hotel X'')],
              [(''hotel_code'', PStr ''nycxx''), (''hotel_name'', PStr ''Hotel Y'')]]
   \<and> append_or_merge True
         [[(''hotel_code'', PStr ''miaep''), (''hotel_name'', PStr ''Hotel X''), (''address'', PStr ''9 New St'')],
          [(''hotel_code'', PStr ''nycxx''), (''hotel_name'', PStr ''Hotel Y'')],
          [(''hotel_code'', PStr ''nycxx''), (''hotel_name'', PStr ''Hotel Y''), (''address'', PStr ''2 B St'')]]
         [((PStr ''miaep'', PStr ''Hotel X''), [(''hotel_code'', PStr ''miaep''), (''hotel_name'', PStr ''Hotel X'')])]
       = Inr [[(''hotel_code'', PStr ''miaep''), (''hotel_name'', PStr ''Hotel X''), (''address'', PStr ''9 New St'')],
              [(''hotel_code'', PStr ''nycxx''), (''hotel_name'', PStr ''Hotel Y''), (''address'', PStr ''2 B St'')]]"
proof -
  let ?N = "[[(''hotel_code'', PStr ''miaep''), (''hotel_name'', PStr ''Hotel X''), (''address'', PStr ''9 New St'')],
               [(''hotel_code'', PStr ''nycxx''), (''hotel_name'', PStr ''Hotel Y'')],
               [(''hotel_code'', PStr ''nycxx''), (''hotel_name'', PStr ''Hotel Y''), (''address'', PStr ''2 B St'')]]"
  let ?E = "[((PStr ''miaep'', PStr ''Hotel X''), [(''hotel_code'', PStr ''miaep''), (''hotel_name'', PStr ''Hotel X'')])]"
  have h1: "\<forall>h\<in>set ?N. hashable_key (key_of h)"
    by (simp add: key_of_def dict_get_def hashable_key_def)
  have h2: "distinct (map fst ?E)" by simp
  from append_or_merge_result [OF h1 h2] h1 h2 show ?thesis
    by (simp add: key_of_def dict_get_def dict_values_def upt_rec [of 0] All_less_Suc list_all_iff)
qed

text \<open>
  C1 as stated fails where two new records share a key that the existing mapping lacks: the
  second one has a key absent from the mapping and is not in the result.
\<close>

theorem append_or_merge_duplicate_counterexample:
  "append_or_merge False
     [[(''hotel_code'', PStr ''miaep''), (''hotel_name'', PStr ''Hotel X''), (''address'', PStr ''1 A St'')],
      [(''hotel_code'', PStr ''miaep''), (''hotel_name'', PStr ''Hotel X''), (''address'', PStr ''2 B St'')]]
     []
   = Inr [[(''hotel_code'', PStr ''miaep''), (''hotel_name'', PStr ''Hotel X''), (''address'', PStr ''1 A St'')]]
   \<and> key_of [(''hotel_code'', PStr ''miaep''), (''hotel_name'', PStr ''Hotel X''), (''address'', PStr ''2 B St'')]
       \<notin> fst ` set ([] :: (hotel_key, hotel) pydict)
   \<and> [(''hotel_code'', PStr ''miaep''), (''hotel_name'', PStr ''Hotel X''), (''address'', PStr ''2 B St'')]
       \<notin> set [[(''hotel_code'', PStr ''miaep''), (''hotel_name'', PStr ''Hotel X''), (''address'', PStr ''1 A St'')]]"
  by (simp add: append_or_merge_def key_of_def dict_get_def hashable_key_def dict_contains_def dict_values_def)

text \<open>
  C3. With overwrite disabled, merging the same new records a second time into the result
  of the first merge, re-indexed by identity key, returns that result again: the same
  records in the same order, none duplicated and none dropped.
\<close>

theorem merge_idempotent:
  assumes E: "keyed_store E" and N: "\<forall>h\<in>set N. hashable_key (key_of h)"
  shows "\<exists>R m. append_or_merge False N E = Inr R \<and> index_by_key R = Inr m \<and>
               append_or_merge False N m = Inr R"
proof -
  from merge_loop_keep [OF N, of E] obtain A where
    M: "merge_loop False N E = Inr (E @ A)"
    and A: "A = map (\<lambda>i. (key_of (N ! i), N ! i))
           [i\<leftarrow>[0..<length N]. key_of (N ! i) \<notin> fst ` set E \<and> (\<forall>j<i. key_of (N ! j) \<noteq> key_of (N ! i))]"
    by simp
  define M where "M = E @ A"
  have d: "distinct (map fst M)"
    using merge_loop_distinct [OF _ M] E unfolding M_def keyed_store_def by simp
  have "\<forall>kv\<in>set A. fst kv = key_of (snd kv) \<and> hashable_key (fst kv)"
    using N unfolding A by auto
  with E d have ks: "keyed_store ([] @ M)" unfolding M_def keyed_store_def by auto
  have idx: "index_by_key (dict_values M) = Inr M"
    unfolding index_by_key_def dict_values_def using index_loop_keyed [OF ks] by simp
  have "fst ` set M = fst ` set E \<union> key_of ` set N"
    using merge_loop_keys [OF M] unfolding M_def .
  with N have "merge_loop False N M = Inr M" by (intro merge_loop_skip) simp
  with M idx show ?thesis unfolding append_or_merge_def M_def by simp
qed

theorem merge_idempotent_witness:
  "keyed_store [((PStr ''miaep'', PStr ''Hotel X''), [(''hotel_code'', PStr ''miaep''), (''hotel_name'', PStr ''Hotel X'')])]
   \<and> list_all (\<lambda>h. hashable_key (key_of h))
         [[(''hotel_code'', PStr ''miaep''), (''hotel_name'', PStr ''Hotel X''), (''address'', PStr ''9 New St'')],
          [(''hotel_code'', PStr ''nycxx''), (''hotel_name'', PStr ''Hotel Y'')]]
   \<and> (\<exists>R m. append_or_merge False
                [[(''hotel_code'', PStr ''miaep''), (''hotel_name'', PStr ''Hotel X''), (''address'', PStr ''9 New St'')],
                 [(''hotel_code'', PStr ''nycxx''), (''hotel_name'', PStr ''Hotel Y'')]]
                [((PStr ''miaep'', PStr ''Hotel X''), [(''hotel_code'', PStr ''miaep''), (''hotel_name'', PStr ''Hotel X'')])]
              = Inr R
            \<and> index_by_key R = Inr m
            \<and> append_or_merge False
                [[(''hotel_code'', PStr ''miaep''), (''hotel_name'', PStr ''Hotel X''), (''address'', PStr ''9 New St'')],
                 [(''hotel_code'', PStr ''nycxx''), (''hotel_name'', PStr ''Hotel Y'')]]
                m
              = Inr R)"
proof -
  let ?N = "[[(''hotel_code'', PStr ''miaep''), (''hotel_name'', PStr ''Hotel X''), (''address'', PStr ''9 New St'')],
               [(''hotel_code'', PStr ''nycxx''), (''hotel_name'', PStr ''Hotel Y'')]]"
  let ?E = "[((PStr ''miaep'', PStr ''Hotel X''), [(''hotel_code'', PStr ''miaep''), (''hotel_name'', PStr ''Hotel X'')])]"
  have h1: "keyed_store ?E"
    by (simp add: keyed_store_def key_of_def dict_get_def hashable_key_def)
  have h2: "\<forall>h\<in>set ?N. hashable_key (key_of h)"
    by (simp add: key_of_def dict_get_def hashable_key_def)
  have h3: "list_all (\<lambda>h. hashable_key (key_of h)) ?N"
    using h2 by (simp only: list_all_iff)
  from merge_idempotent [OF h1 h2] h1 h3 show ?thesis by blast
qed

section \<open>The hotel code of a URL: properties\<close>

lemma code_loop_first:
  "\<forall>x\<in>set xs. \<not> is_code_segment x \<Longrightarrow> is_code_segment p \<Longrightarrow> code_loop (xs @ p # ys) = Some (lower p)"
  by (induction xs) simp_all

lemma code_loop_none: "\<forall>x\<in>set xs. \<not> is_code_segment x \<Longrightarrow> code_loop xs = None"
  by (induction xs) simp_all

lemma fallback_loop_first:
  "\<forall>y\<in>set ys. \<not> kept_segment y \<Longrightarrow> kept_segment p \<Longrightarrow>
   fallback_loop (ys @ p # xs) = Some (lower p)"
  by (induction ys) simp_all

text \<open>
  C9. \<open>get_hotel_code_from_url\<close> returns \<open>None\<close> for a missing or empty URL.
  Otherwise, with the segments of the URL's path (trailing slashes removed, split at the
  slashes): when some segment consists of exactly five letters or digits, the result is the
  first such segment, lowercased; when none does, the result is the last segment that is
  not empty and, compared in lower case, is neither \<open>hoteldetail\<close> nor
  \<open>amenities\<close>, lowercased.
\<close>

theorem get_hotel_code_from_url_result:
  "(url = None \<or> url = Some [] \<longrightarrow> get_hotel_code_from_url urlparse_path url = None)
   \<and> (\<forall>u path xs p ys.
        url = Some u \<and> u \<noteq> [] \<and> urlparse_path u = Some path
        \<and> split_slash (rstrip_slash path) = xs @ p # ys
        \<and> (\<forall>x\<in>set xs. \<not> is_code_segment x) \<and> is_code_segment p
        \<longrightarrow> get_hotel_code_from_url urlparse_path url = Some (lower p))
   \<and> (\<forall>u path xs p ys.
        url = Some u \<and> u \<noteq> [] \<and> urlparse_path u = Some path
        \<and> split_slash (rstrip_slash path) = xs @ p # ys
        \<and> (\<forall>x\<in>set (xs @ p # ys). \<not> is_code_segment x)
        \<and> kept_segment p \<and> (\<forall>y\<in>set ys. \<not> kept_segment y)
        \<longrightarrow> get_hotel_code_from_url urlparse_path url = Some (lower p))"
proof (intro conjI allI impI)
  assume "url = None \<or> url = Some []"
  then show "get_hotel_code_from_url urlparse_path url = None"
    by (auto simp: get_hotel_code_from_url_def)
next
  fix u path xs p ys
  assume a: "url = Some u \<and> u \<noteq> [] \<and> urlparse_path u = Some path
        \<and> split_slash (rstrip_slash path) = xs @ p # ys
        \<and> (\<forall>x\<in>set xs. \<not> is_code_segment x) \<and> is_code_segment p"
  then have "code_loop (split_slash (rstrip_slash path)) = Some (lower p)"
    by (simp add: code_loop_first)
  with a show "get_hotel_code_from_url urlparse_path url = Some (lower p)"
    by (simp add: get_hotel_code_from_url_def)
next
  fix u path xs p ys
  assume a: "url = Some u \<and> u \<noteq> [] \<and> urlparse_path u = Some path
        \<and> split_slash (rstrip_slash path) = xs @ p # ys
        \<and> (\<forall>x\<in>set (xs @ p # ys). \<not> is_code_segment x)
        \<and> kept_segment p \<and> (\<forall>y\<in>set ys. \<not> kept_segment y)"
  then have 1: "code_loop (split_slash (rstrip_slash path)) = None"
    using code_loop_none [of "xs @ p # ys"] by simp
  from a have "\<forall>y\<in>set (rev ys). \<not> kept_segment y" by simp
  from fallback_loop_first [OF this, of p "rev xs"] a
  have 2: "fallback_loop (rev (split_slash (rstrip_slash path))) = Some (lower p)" by simp
  from a 1 2 show "get_hotel_code_from_url urlparse_path url = Some (lower p)"
    by (simp add: get_hotel_code_from_url_def)
qed

theorem get_hotel_code_from_url_witness:
  "get_hotel_code_from_url (\<lambda>u. Some ''/hotels/us/en/MIAEP/hoteldetail'')
       (Some ''https://www.ihg.com/hotels/us/en/MIAEP/hoteldetail'') = Some ''miaep''
   \<and> get_hotel_code_from_url (\<lambda>u. Some ''/us/Miami-Beach/hoteldetail/amenities/'')
       (Some ''https://www.ihg.com/us/Miami-Beach/hoteldetail/amenities/'') = Some ''miami-beach''
   \<and> get_hotel_code_from_url (\<lambda>u. None) None = None"
proof -
  let ?f = "\<lambda>u::string. Some ''/hotels/us/en/MIAEP/hoteldetail''"
  let ?g = "\<lambda>u::string. Some ''/us/Miami-Beach/hoteldetail/amenities/''"
  have s1: "split_slash (rstrip_slash ''/hotels/us/en/MIAEP/hoteldetail'')
            = [[], ''hotels'', ''us'', ''en''] @ ''MIAEP'' # [''hoteldetail'']"
    by code_simp
  have c1: "\<forall>x\<in>set [[], ''hotels'', ''us'', ''en'']. \<not> is_code_segment x" by code_simp
  have c2: "is_code_segment ''MIAEP''" by code_simp
  have l1: "lower ''MIAEP'' = ''miaep''" by code_simp
  have s2: "split_slash (rstrip_slash ''/us/Miami-Beach/hoteldetail/amenities/'')
            = [[], ''us''] @ ''Miami-Beach'' # [''hoteldetail'', ''amenities'']"
    by code_simp
  have d1: "\<forall>x\<in>set ([[], ''us''] @ ''Miami-Beach'' # [''hoteldetail'', ''amenities'']). \<not> is_code_segment x"
    by code_simp
  have d2: "kept_segment ''Miami-Beach''" by code_simp
  have d3: "\<forall>y\<in>set [''hoteldetail'', ''amenities'']. \<not> kept_segment y" by code_simp
  have l2: "lower ''Miami-Beach'' = ''miami-beach''" by code_simp
  have A: "get_hotel_code_from_url ?f (Some ''https://www.ihg.com/hotels/us/en/MIAEP/hoteldetail'') = Some (lower ''MIAEP'')"
    by (rule get_hotel_code_from_url_result [THEN conjunct2, THEN conjunct1, rule_format,
          where xs = "[[], ''hotels'', ''us'', ''en'']" and ys = "[''hoteldetail'']"
            and path = "''/hotels/us/en/MIAEP/hoteldetail''"
            and u = "''https://www.ihg.com/hotels/us/en/MIAEP/hoteldetail''"])
       (use s1 c1 c2 in simp)
  have B: "get_hotel_code_from_url ?g (Some ''https://www.ihg.com/us/Miami-Beach/hoteldetail/amenities/'') = Some (lower ''Miami-Beach'')"
    by (rule get_hotel_code_from_url_result [THEN conjunct2, THEN conjunct2, rule_format,
          where xs = "[[], ''us'']" and ys = "[''hoteldetail'', ''amenities'']"
            and path = "''/us/Miami-Beach/hoteldetail/amenities/''"
            and u = "''https://www.ihg.com/us/Miami-Beach/hoteldetail/amenities/''"])
       (use s2 d1 d2 d3 in simp)
  have C: "get_hotel_code_from_url (\<lambda>u. None) None = None"
    by (rule get_hotel_code_from_url_result [THEN conjunct1, rule_format]) simp
  from A B C l1 l2 show ?thesis by simp
qed

section \<open>The city enumerator: properties\<close>

lemma city_loop_append:
  "city_loop (xs @ ys) st = (case city_loop xs st of Inl e \<Rightarrow> Inl e | Inr st' \<Rightarrow> city_loop ys st')"
proof (induction xs arbitrary: st)
  case Nil then show ?case by simp
next
  case (Cons el xs)
  obtain seen cities where st: "st = (seen, cities)" by (cases st)
  show ?case unfolding st
    by (simp add: Cons Let_def split: option.split outcome.split)
qed

lemma city_loop_Inl:
  "(\<exists>e. city_loop links st = Inl e) \<longleftrightarrow> (\<exists>l\<in>set links. el_href l = Raised \<or> el_text l = Raised)"
proof (induction links arbitrary: st)
  case Nil then show ?case by simp
next
  case (Cons el links)
  obtain seen cities where st: "st = (seen, cities)" by (cases st)
  show ?case
  proof (cases "el_href el")
    case Raised then show ?thesis unfolding st by simp
  next
    case (Returned url)
    note h = this
    show ?thesis
    proof (cases "el_text el")
      case Raised with h show ?thesis unfolding st by simp
    next
      case (Returned t)
      with h Cons show ?thesis unfolding st
        by (simp add: Let_def split: option.split)
    qed
  qed
qed

lemma city_loop_result:
  "city_loop (map (\<lambda>ht. \<lparr>el_href = Returned (fst ht), el_text = Returned (snd ht)\<rparr>) hts) ([], []) =
     Inr (map (\<lambda>i. the (fst (hts ! i)))
        [i\<leftarrow>[0..<length hts].
           (case fst (hts ! i) of None \<Rightarrow> False | Some u \<Rightarrow> u \<noteq> [] \<and> keep_url u)
           \<and> (\<forall>j<i. fst (hts ! j) \<noteq> fst (hts ! i))],
      map (\<lambda>i. \<lparr>city_name = strip (snd (hts ! i)), city_url = the (fst (hts ! i))\<rparr>)
        [i\<leftarrow>[0..<length hts].
           (case fst (hts ! i) of None \<Rightarrow> False | Some u \<Rightarrow> u \<noteq> [] \<and> keep_url u)
           \<and> (\<forall>j<i. fst (hts ! j) \<noteq> fst (hts ! i))])"
proof (induction hts rule: rev_induct)
  case Nil then show ?case by simp
next
  case (snoc l links)
  define mk where "mk = (\<lambda>ht :: string option \<times> string. \<lparr>el_href = Returned (fst ht), el_text = Returned (snd ht)\<rparr>)"
  define kept where "kept = (\<lambda>h :: string option. case h of None \<Rightarrow> False | Some u \<Rightarrow> u \<noteq> [] \<and> keep_url u)"
  define P where "P = (\<lambda>M i. kept (fst (M ! i)) \<and> (\<forall>j<i. fst (M ! j) \<noteq> fst ((M :: (string option \<times> string) list) ! i)))"
  define I where "I = [i\<leftarrow>[0..<length links]. P links i]"
  define U where "U = (\<lambda>M i. the (fst ((M :: (string option \<times> string) list) ! i)))"
  define C where "C = (\<lambda>M i. \<lparr>city_name = strip (snd (M ! i)), city_url = the (fst ((M :: (string option \<times> string) list) ! i))\<rparr>)"
  have IH: "city_loop (map mk links) ([], []) = Inr (map (U links) I, map (C links) I)"
    using snoc unfolding I_def P_def kept_def U_def C_def mk_def by simp
  have same: "[i\<leftarrow>[0..<length links]. P (links @ [l]) i] = I"
    unfolding I_def by (rule filter_cong) (simp_all add: P_def nth_append)
  have Ilt: "i \<in> set I \<Longrightarrow> i < length links" for i unfolding I_def by simp
  have mapU: "map (U (links @ [l])) I = map (U links) I"
    by (rule map_cong) (simp_all add: U_def nth_append Ilt)
  have mapC: "map (C (links @ [l])) I = map (C links) I"
    by (rule map_cong) (simp_all add: C_def nth_append Ilt)
  have Plast: "P (links @ [l]) (length links) \<longleftrightarrow> kept (fst l) \<and> fst l \<notin> fst ` set links"
  proof -
    have "(\<forall>j<length links. fst ((links @ [l]) ! j) \<noteq> fst l) \<longleftrightarrow> fst l \<notin> fst ` set links"
      by (simp add: nth_append image_iff all_set_conv_all_nth eq_commute)
    then show ?thesis unfolding P_def by simp
  qed
  have goal_eq: "[i\<leftarrow>[0..<length (links @ [l])]. P (links @ [l]) i]
       = I @ (if P (links @ [l]) (length links) then [length links] else [])"
    using same by simp
  have seen_iff: "u \<in> set (map (U links) I) \<longleftrightarrow> kept (Some u) \<and> Some u \<in> fst ` set links" for u
  proof
    assume "u \<in> set (map (U links) I)"
    then obtain i where i: "i \<in> set I" "u = U links i" by auto
    then have il: "i < length links" and "P links i" unfolding I_def by simp_all
    then have k: "kept (fst (links ! i))" unfolding P_def by simp
    then obtain v where v: "fst (links ! i) = Some v" unfolding kept_def by (cases "fst (links ! i)") simp_all
    with i have "u = v" unfolding U_def by simp
    with v k il show "kept (Some u) \<and> Some u \<in> fst ` set links"
      by (metis imageI nth_mem)
  next
    assume a: "kept (Some u) \<and> Some u \<in> fst ` set links"
    then have "Some u \<in> fst ` set links" by simp
    from first_index [OF this] obtain i where
      i: "i < length links" "fst (links ! i) = Some u" "\<forall>j<i. fst (links ! j) \<noteq> Some u" by blast
    with a have "P links i" unfolding P_def by simp
    with i have "i \<in> set I" unfolding I_def by simp
    moreover have "U links i = u" using i unfolding U_def by simp
    ultimately show "u \<in> set (map (U links) I)" by force
  qed
  have step: "city_loop (map mk (links @ [l])) ([], []) = city_loop [mk l] (map (U links) I, map (C links) I)"
    using IH by (simp add: city_loop_append)
  have "city_loop [mk l] (map (U links) I, map (C links) I)
        = Inr (map (U (links @ [l])) (I @ (if P (links @ [l]) (length links) then [length links] else [])),
           map (C (links @ [l])) (I @ (if P (links @ [l]) (length links) then [length links] else [])))"
  proof (cases "fst l")
    case None
    then have "\<not> P (links @ [l]) (length links)" unfolding Plast kept_def by simp
    with None show ?thesis by (simp add: mapU mapC mk_def)
  next
    case (Some u)
    show ?thesis
    proof (cases "u = [] \<or> u \<in> set (map (U links) I)")
      case True
      then have "\<not> P (links @ [l]) (length links)"
        unfolding Plast using Some seen_iff [of u] by (auto simp: kept_def)
      with Some True show ?thesis by (auto simp: mapU mapC mk_def)
    next
      case False
      show ?thesis
      proof (cases "keep_url u")
        case True
        with False Some have k: "kept (fst l)" unfolding kept_def by simp
        from False seen_iff [of u] k Some have "fst l \<notin> fst ` set links" by auto
        with k have P: "P (links @ [l]) (length links)" unfolding Plast by simp
        have "U (links @ [l]) (length links) = u" "C (links @ [l]) (length links) = \<lparr>city_name = strip (snd l), city_url = u\<rparr>"
          using Some unfolding U_def C_def by simp_all
        with P Some False True show ?thesis by (simp add: mapU mapC mk_def)
      next
        case no: False
        then have "\<not> P (links @ [l]) (length links)"
          unfolding Plast using Some by (simp add: kept_def)
        with Some False no show ?thesis by (simp add: mapU mapC mk_def)
      qed
    qed
  qed
  with step goal_eq show ?case
    unfolding P_def kept_def U_def C_def mk_def by simp
qed

lemma kept_urls_distinct:
  "distinct (map (\<lambda>i. the (fst (hts ! i)))
        [i\<leftarrow>[0..<length hts].
           (case fst (hts ! i) of None \<Rightarrow> False | Some u \<Rightarrow> u \<noteq> [] \<and> keep_url u)
           \<and> (\<forall>j<i. fst (hts ! j) \<noteq> fst ((hts :: (string option \<times> string) list) ! i))])"
proof -
  define kept where "kept = (\<lambda>h :: string option. case h of None \<Rightarrow> False | Some u \<Rightarrow> u \<noteq> [] \<and> keep_url u)"
  define I where "I = [i\<leftarrow>[0..<length hts]. kept (fst (hts ! i))
           \<and> (\<forall>j<i. fst (hts ! j) \<noteq> fst (hts ! i))]"
  have dI: "distinct I" unfolding I_def by simp
  have inj: "inj_on (\<lambda>i. the (fst (hts ! i))) (set I)"
  proof (rule inj_onI)
    fix i i' assume i: "i \<in> set I" and i': "i' \<in> set I"
      and eq: "the (fst (hts ! i)) = the (fst (hts ! i'))"
    from i have k: "kept (fst (hts ! i))" and f: "\<forall>j<i. fst (hts ! j) \<noteq> fst (hts ! i)"
      unfolding I_def by simp_all
    from i' have k': "kept (fst (hts ! i'))" and f': "\<forall>j<i'. fst (hts ! j) \<noteq> fst (hts ! i')"
      unfolding I_def by simp_all
    from k obtain u where u: "fst (hts ! i) = Some u"
      unfolding kept_def by (cases "fst (hts ! i)") simp_all
    from k' obtain u' where u': "fst (hts ! i') = Some u'"
      unfolding kept_def by (cases "fst (hts ! i')") simp_all
    from eq u u' have e: "fst (hts ! i) = fst (hts ! i')" by simp
    show "i = i'"
    proof (rule ccontr)
      assume "i \<noteq> i'"
      then consider "i < i'" | "i' < i" by arith
      then show False
      proof cases
        case 1 with f' e show False by blast
      next
        case 2 with f e show False by metis
      qed
    qed
  qed
  have "distinct (map (\<lambda>i. the (fst (hts ! i))) I)"
    by (simp add: distinct_map dI inj)
  then show ?thesis unfolding I_def kept_def .
qed

text \<open>
  When the method raises: the page did not open, the wait raised something other than a
  timeout, the elements could not be listed, or the \<open>href\<close> or the text of one of them
  could not be read.
\<close>

lemma scrape_city_urls_raises:
  "(\<exists>e. scrape_city_urls page = Inl e) \<longleftrightarrow>
        \<not> open_ok page \<or> waited page = Raised \<or> found page = Raised
        \<or> (\<exists>links. found page = Returned links
              \<and> (\<exists>l\<in>set links. el_href l = Raised \<or> el_text l = Raised))"
proof (cases "open_ok page")
  case False then show ?thesis by (simp add: scrape_city_urls_def)
next
  case True
  note o = this
  show ?thesis
  proof (cases "waited page")
    case Raised with o show ?thesis by (simp add: scrape_city_urls_def)
  next
    case (Returned w)
    note w = this
    show ?thesis
    proof (cases "found page")
      case Raised with o w show ?thesis by (simp add: scrape_city_urls_def)
    next
      case (Returned links)
      have "(\<exists>e. (case city_loop links ([], []) of Inl e \<Rightarrow> Inl e | Inr st \<Rightarrow> Inr (snd st)) = (Inl e :: error + city list))
            \<longleftrightarrow> (\<exists>e. city_loop links ([], []) = Inl e)"
        by (cases "city_loop links ([], [])") simp_all
      with o w Returned city_loop_Inl [of links "([], [])"] show ?thesis
        by (simp add: scrape_city_urls_def)
    qed
  qed
qed

text \<open>
  C7 (as amended). When the landing page opens, the wait ends (with an element or by its
  timeout) and every matching link element is listed and read without a driver exception,
  \<open>scrape_city_urls\<close> returns the (name, url) pairs of the elements found after the wait,
  in page order: one pair for the first occurrence of each \<open>href\<close> that is not empty,
  contains \<open>ihg.com\<close> and contains one of \<open>hotels\<close>, \<open>/explore/\<close>,
  \<open>/destinations\<close> or, in lower case, \<open>pet\<close>; the name is the stripped text of that
  element, and the urls returned are pairwise distinct. When no element is found it returns
  the empty list. The outcome of the wait is not tested: the result after a timeout is the
  result after a successful wait, so elements found after a timeout are processed all the
  same.
\<close>

theorem scrape_city_urls_result:
  "(\<forall>hts. open_ok page \<and> (\<exists>w. waited page = Returned w)
        \<and> found page = Returned (map (\<lambda>ht. \<lparr>el_href = Returned (fst ht), el_text = Returned (snd ht)\<rparr>) hts)
      \<longrightarrow> scrape_city_urls page =
            Inr (map (\<lambda>i. \<lparr>city_name = strip (snd (hts ! i)), city_url = the (fst (hts ! i))\<rparr>)
              [i\<leftarrow>[0..<length hts].
                 (case fst (hts ! i) of None \<Rightarrow> False | Some u \<Rightarrow> u \<noteq> [] \<and> keep_url u)
                 \<and> (\<forall>j<i. fst (hts ! j) \<noteq> fst (hts ! i))])
          \<and> distinct (map (\<lambda>i. the (fst (hts ! i)))
              [i\<leftarrow>[0..<length hts].
                 (case fst (hts ! i) of None \<Rightarrow> False | Some u \<Rightarrow> u \<noteq> [] \<and> keep_url u)
                 \<and> (\<forall>j<i. fst (hts ! j) \<noteq> fst (hts ! i))]))
   \<and> (open_ok page \<and> (\<exists>w. waited page = Returned w) \<and> found page = Returned []
        \<longrightarrow> scrape_city_urls page = Inr [])
   \<and> (\<forall>w. scrape_city_urls (page\<lparr>waited := Returned w\<rparr>)
           = scrape_city_urls (page\<lparr>waited := Returned None\<rparr>))"
proof (intro conjI allI impI)
  fix hts
  assume a: "open_ok page \<and> (\<exists>w. waited page = Returned w)
        \<and> found page = Returned (map (\<lambda>ht. \<lparr>el_href = Returned (fst ht), el_text = Returned (snd ht)\<rparr>) hts)"
  then obtain w where w: "waited page = Returned w" by blast
  from a w show "scrape_city_urls page =
            Inr (map (\<lambda>i. \<lparr>city_name = strip (snd (hts ! i)), city_url = the (fst (hts ! i))\<rparr>)
              [i\<leftarrow>[0..<length hts].
                 (case fst (hts ! i) of None \<Rightarrow> False | Some u \<Rightarrow> u \<noteq> [] \<and> keep_url u)
                 \<and> (\<forall>j<i. fst (hts ! j) \<noteq> fst (hts ! i))])"
    by (simp add: scrape_city_urls_def city_loop_result)
  show "distinct (map (\<lambda>i. the (fst (hts ! i)))
              [i\<leftarrow>[0..<length hts].
                 (case fst (hts ! i) of None \<Rightarrow> False | Some u \<Rightarrow> u \<noteq> [] \<and> keep_url u)
                 \<and> (\<forall>j<i. fst (hts ! j) \<noteq> fst (hts ! i))])"
    by (rule kept_urls_distinct)
next
  assume a: "open_ok page \<and> (\<exists>w. waited page = Returned w) \<and> found page = Returned []"
  then obtain w where w: "waited page = Returned w" by blast
  from a w show "scrape_city_urls page = Inr []" by (simp add: scrape_city_urls_def)
next
  fix w show "scrape_city_urls (page\<lparr>waited := Returned w\<rparr>)
           = scrape_city_urls (page\<lparr>waited := Returned None\<rparr>)"
    by (simp add: scrape_city_urls_def)
qed

theorem scrape_city_urls_witness:
  "scrape_city_urls \<lparr>open_ok = True, waited = Returned None, found = Returned []\<rparr> = Inr []
   \<and> scrape_city_urls \<lparr>open_ok = True,
         waited = Returned (Some \<lparr>el_href = Returned (Some ''https://www.ihg.com/explore/miami''),
                        el_text = Returned '' Miami ''\<rparr>),
         found = Returned (map (\<lambda>ht. \<lparr>el_href = Returned (fst ht), el_text = Returned (snd ht)\<rparr>)
           [(Some ''https://www.ihg.com/explore/miami'', '' Miami ''),
            (Some ''https://www.ihg.com/rewards'', ''Rewards''),
            (None, ''x''),
            (Some ''https://www.ihg.com/explore/miami'', ''Miami again''),
            (Some ''https://www.ihg.com/PET'', ''Pets'')])\<rparr>
     = Inr [\<lparr>city_name = ''Miami'', city_url = ''https://www.ihg.com/explore/miami''\<rparr>,
            \<lparr>city_name = ''Pets'', city_url = ''https://www.ihg.com/PET''\<rparr>]
   \<and> distinct (map city_url
           [\<lparr>city_name = ''Miami'', city_url = ''https://www.ihg.com/explore/miami''\<rparr>,
            \<lparr>city_name = ''Pets'', city_url = ''https://www.ihg.com/PET''\<rparr>])"
proof -
  let ?hts = "[(Some ''https://www.ihg.com/explore/miami'', '' Miami ''),
            (Some ''https://www.ihg.com/rewards'', ''Rewards''),
            (None, ''x''),
            (Some ''https://www.ihg.com/explore/miami'', ''Miami again''),
            (Some ''https://www.ihg.com/PET'', ''Pets'')]"
  let ?page = "\<lparr>open_ok = True,
         waited = Returned (Some \<lparr>el_href = Returned (Some ''https://www.ihg.com/explore/miami''),
                        el_text = Returned '' Miami ''\<rparr>),
         found = Returned (map (\<lambda>ht. \<lparr>el_href = Returned (fst ht), el_text = Returned (snd ht)\<rparr>) ?hts)\<rparr>"
  let ?R = "[\<lparr>city_name = ''Miami'', city_url = ''https://www.ihg.com/explore/miami''\<rparr>,
            \<lparr>city_name = ''Pets'', city_url = ''https://www.ihg.com/PET''\<rparr>]"
  let ?I = "[i\<leftarrow>[0..<length ?hts].
                 (case fst (?hts ! i) of None \<Rightarrow> False | Some u \<Rightarrow> u \<noteq> [] \<and> keep_url u)
                 \<and> (\<forall>j<i. fst (?hts ! j) \<noteq> fst (?hts ! i))]"
  let ?C = "\<lambda>i. \<lparr>city_name = strip (snd (?hts ! i)), city_url = the (fst (?hts ! i))\<rparr>"
  have A: "scrape_city_urls \<lparr>open_ok = True, waited = Returned None, found = Returned []\<rparr> = Inr []"
    by (rule scrape_city_urls_result [THEN conjunct2, THEN conjunct1, rule_format]) simp
  have h: "open_ok ?page \<and> (\<exists>w. waited ?page = Returned w) \<and> found ?page = Returned (map (\<lambda>ht. \<lparr>el_href = Returned (fst ht), el_text = Returned (snd ht)\<rparr>) ?hts)"
    by simp
  note T = scrape_city_urls_result [THEN conjunct1, rule_format, OF h]
  have E: "scrape_city_urls ?page = Inr (map ?C ?I)" by (rule T [THEN conjunct1])
  have D: "distinct (map (\<lambda>i. the (fst (?hts ! i))) ?I)" by (rule T [THEN conjunct2])
  have V: "scrape_city_urls ?page = Inr ?R" by code_simp
  from E [symmetric] V have "Inr (map ?C ?I) = (Inr ?R :: error + city list)" by (rule trans)
  then have M: "map ?C ?I = ?R" by (rule Inr_inject)
  from D have "distinct (map city_url (map ?C ?I))"
    by (simp only: map_map o_def city.select_convs)
  then have "distinct (map city_url ?R)" by (simp only: M)
  with A V show ?thesis by (intro conjI)
qed

text \<open>
  C7 as stated fails where it says that a timeout gives the empty list and no exception.
  The wait times out (\<open>waited\<close> is \<open>None\<close>), an element is found afterwards: in the
  first page it is returned, in the second reading its text raises and the exception leaves
  the method.
\<close>

theorem scrape_city_urls_timeout_counterexample:
  "waited \<lparr>open_ok = True, waited = Returned None,
           found = Returned [\<lparr>el_href = Returned (Some ''https://www.ihg.com/hotels/miami''),
                              el_text = Returned ''Miami''\<rparr>]\<rparr> = Returned None
   \<and> scrape_city_urls \<lparr>open_ok = True, waited = Returned None,
           found = Returned [\<lparr>el_href = Returned (Some ''https://www.ihg.com/hotels/miami''),
                              el_text = Returned ''Miami''\<rparr>]\<rparr>
       = Inr [\<lparr>city_name = ''Miami'', city_url = ''https://www.ihg.com/hotels/miami''\<rparr>]
   \<and> waited \<lparr>open_ok = True, waited = Returned None,
           found = Returned [\<lparr>el_href = Returned (Some ''https://www.ihg.com/hotels/miami''),
                              el_text = Raised\<rparr>]\<rparr> = Returned None
   \<and> scrape_city_urls \<lparr>open_ok = True, waited = Returned None,
           found = Returned [\<lparr>el_href = Returned (Some ''https://www.ihg.com/hotels/miami''),
                              el_text = Raised\<rparr>]\<rparr>
       = Inl WebDriverError"
  by code_simp

section \<open>Phone extraction: properties\<close>

lemma rtrim_prefix: "prefix (rev (dropWhile P (rev xs))) xs"
proof -
  have "suffix (dropWhile P (rev xs)) (rev xs)" by (rule suffix_dropWhile)
  then have "prefix (rev (dropWhile P (rev xs))) (rev (rev xs))"
    by (simp only: suffix_to_prefix)
  then show ?thesis by simp
qed

lemma rtrim_last:
  assumes "rev (dropWhile P (rev xs)) \<noteq> []"
  shows "\<not> P (last (rev (dropWhile P (rev xs))))"
proof -
  from assms have ne: "dropWhile P (rev xs) \<noteq> []" by simp
  then have "\<not> P (hd (dropWhile P (rev xs)))" by (rule hd_dropWhile)
  with ne show ?thesis by (simp add: last_rev)
qed

lemma dropWhile_keeps:
  "\<not> P b \<Longrightarrow> Suc (length cs) \<le> length (dropWhile P (as @ b # cs))"
proof (induction as)
  case Nil then show ?case by simp
next
  case (Cons a as)
  show ?case
  proof (cases "P a")
    case True with Cons show ?thesis by simp
  next
    case False then show ?thesis by simp
  qed
qed

lemma rtrim_length:
  assumes "\<not> P d"
  shows "Suc (length xs) \<le> length (rev (dropWhile P (rev (xs @ d # ys))))"
  using dropWhile_keeps [where P = P and b = d and as = "rev ys" and cs = "rev xs"] assms by simp

lemma phone_tail_Cons:
  "phone_tail (d # rest) =
     (if \<not> is_digit d then None
      else if 8 \<le> length (rev (dropWhile (\<lambda>c. \<not> is_digit c) (rev (takeWhile is_phone_char rest))))
           then Some (d # rev (dropWhile (\<lambda>c. \<not> is_digit c) (rev (takeWhile is_phone_char rest))))
           else None)"
  unfolding phone_tail_def Let_def by (simp only: list.case)

lemma phone_tail_sound:
  assumes "phone_tail s = Some m"
  shows "prefix m s \<and> (\<exists>d mid d'. m = d # mid @ [d'] \<and> is_digit d \<and> is_digit d'
                          \<and> list_all is_phone_char mid \<and> 7 \<le> length mid)"
proof (cases s)
  case Nil
  with assms show ?thesis by (simp add: phone_tail_def)
next
  case (Cons d rest)
  define run where "run = takeWhile is_phone_char rest"
  define tr where "tr = rev (dropWhile (\<lambda>c. \<not> is_digit c) (rev run))"
  have pt: "phone_tail s = (if \<not> is_digit d then None else if 8 \<le> length tr then Some (d # tr) else None)"
    unfolding Cons tr_def run_def by (rule phone_tail_Cons)
  have d: "is_digit d"
  proof (rule ccontr)
    assume "\<not> is_digit d"
    with pt have "phone_tail s = None" by simp
    with assms show False by simp
  qed
  have len: "8 \<le> length tr"
  proof (rule ccontr)
    assume "\<not> 8 \<le> length tr"
    with pt d have "phone_tail s = None" by simp
    with assms show False by simp
  qed
  from pt d len have "phone_tail s = Some (d # tr)" by simp
  with assms have m: "m = d # tr" by simp
  have p1: "prefix tr run" unfolding tr_def by (rule rtrim_prefix)
  have p2: "prefix run rest" unfolding run_def by (rule takeWhile_is_prefix)
  from p1 p2 have p: "prefix tr rest" by (rule prefix_order.trans)
  from len have ne: "tr \<noteq> []" by (cases tr) simp_all
  then have "\<not> \<not> is_digit (last tr)" unfolding tr_def by (rule rtrim_last)
  then have dl: "is_digit (last tr)" by (simp only: not_not)
  have "set tr \<subseteq> set run" using p1 by (rule set_mono_prefix)
  moreover have "\<forall>c\<in>set run. is_phone_char c" unfolding run_def by (blast dest: set_takeWhileD)
  ultimately have all: "\<forall>c\<in>set tr. is_phone_char c" by blast
  have "\<forall>c\<in>set (butlast tr). c \<in> set tr" by (blast dest: in_set_butlastD)
  with all have amid: "list_all is_phone_char (butlast tr)" unfolding list_all_iff by blast
  have "length (butlast tr) = length tr - 1" by (rule length_butlast)
  with len have lmid: "7 \<le> length (butlast tr)" by linarith
  from m ne have me: "m = d # butlast tr @ [last tr]" by simp
  have ex: "\<exists>d0 mid d'. m = d0 # mid @ [d'] \<and> is_digit d0 \<and> is_digit d'
                          \<and> list_all is_phone_char mid \<and> 7 \<le> length mid"
    apply (rule exI [of _ d])
    apply (rule exI [of _ "butlast tr"])
    apply (rule exI [of _ "last tr"])
    apply (intro conjI)
    apply (rule me)
    apply (rule d)
    apply (rule dl)
    apply (rule amid)
    apply (rule lmid)
    done
  from p have "prefix (d # tr) (d # rest)" by simp
  then have pre: "prefix m s" unfolding m Cons .
  from pre ex show ?thesis by (rule conjI)
qed

lemma phone_match_at_sound:
  assumes "phone_match_at s = Some m"
  shows "prefix m s \<and> (\<exists>p d mid d'. m = p @ d # mid @ [d'] \<and> (p = [] \<or> p = ''+'')
            \<and> is_digit d \<and> is_digit d' \<and> list_all is_phone_char mid \<and> 7 \<le> length mid)"
proof (cases s)
  case Nil with assms show ?thesis by (simp add: phone_match_at_def)
next
  case (Cons c r)
  show ?thesis
  proof (cases "c = CHR ''+''")
    case True
    with assms Cons obtain m' where m': "phone_tail r = Some m'" "m = c # m'"
      by (auto simp: phone_match_at_def split: option.splits)
    from phone_tail_sound [OF m'(1)] obtain d mid d' where
      x: "prefix m' r" "m' = d # mid @ [d']" "is_digit d" "is_digit d'"
         "list_all is_phone_char mid" "7 \<le> length mid" by blast
    from x(2) m'(2) True have "m = ''+'' @ d # mid @ [d']" by simp
    with x have "\<exists>p d mid d'. m = p @ d # mid @ [d'] \<and> (p = [] \<or> p = ''+'')
            \<and> is_digit d \<and> is_digit d' \<and> list_all is_phone_char mid \<and> 7 \<le> length mid" by blast
    moreover from x(1) m'(2) Cons have "prefix m s" by simp
    ultimately show ?thesis by blast
  next
    case False
    with assms Cons have "phone_tail s = Some m" by (simp add: phone_match_at_def)
    from phone_tail_sound [OF this] obtain d mid d' where
      x: "prefix m s" "m = [] @ d # mid @ [d']" "is_digit d" "is_digit d'"
         "list_all is_phone_char mid" "7 \<le> length mid" by auto
    then show ?thesis by blast
  qed
qed

lemma phone_search_sound:
  "phone_search t = Some m \<Longrightarrow>
   sublist m t \<and> (\<exists>p d mid d'. m = p @ d # mid @ [d'] \<and> (p = [] \<or> p = ''+'')
            \<and> is_digit d \<and> is_digit d' \<and> list_all is_phone_char mid \<and> 7 \<le> length mid)"
proof (induction t)
  case Nil then show ?case by simp
next
  case (Cons c cs)
  show ?case
  proof (cases "phone_match_at (c # cs)")
    case None
    with Cons.prems have "phone_search cs = Some m" by simp
    from Cons.IH [OF this] have sub: "sublist m cs"
      and sh: "\<exists>p d mid d'. m = p @ d # mid @ [d'] \<and> (p = [] \<or> p = ''+'')
            \<and> is_digit d \<and> is_digit d' \<and> list_all is_phone_char mid \<and> 7 \<le> length mid"
      by blast+
    from sub have sub': "sublist m (c # cs)" by (simp only: sublist_Cons_right) blast
    from sub' sh show ?thesis by (rule conjI)
  next
    case (Some m')
    with Cons.prems have "phone_match_at (c # cs) = Some m" by simp
    from phone_match_at_sound [OF this] have pre: "prefix m (c # cs)"
      and sh: "\<exists>p d mid d'. m = p @ d # mid @ [d'] \<and> (p = [] \<or> p = ''+'')
            \<and> is_digit d \<and> is_digit d' \<and> list_all is_phone_char mid \<and> 7 \<le> length mid"
      by blast+
    from pre have sub': "sublist m (c # cs)" by (rule prefix_imp_sublist)
    from sub' sh show ?thesis by (rule conjI)
  qed
qed

lemma digit_not_plus: "is_digit d \<Longrightarrow> d \<noteq> CHR ''+''"
proof
  assume "is_digit d" "d = CHR ''+''"
  then have "is_digit CHR ''+''" by simp
  moreover have "\<not> is_digit CHR ''+''" by code_simp
  ultimately show False by simp
qed

lemma phone_tail_complete:
  assumes "is_digit d" "is_digit d'" "list_all is_phone_char mid" "7 \<le> length mid"
  shows "phone_tail (d # mid @ d' # b) \<noteq> None"
proof -
  define rest where "rest = mid @ d' # b"
  define run where "run = takeWhile is_phone_char rest"
  have pc: "is_phone_char d'" using assms(2) by (simp add: is_phone_char_def)
  have "\<forall>c\<in>set (mid @ [d']). is_phone_char c" using assms(3) pc by (auto simp: list_all_iff)
  then have "\<And>x. x \<in> set (mid @ [d']) \<Longrightarrow> is_phone_char x" by blast
  then have "takeWhile is_phone_char ((mid @ [d']) @ b) = (mid @ [d']) @ takeWhile is_phone_char b"
    by (intro takeWhile_append2) blast
  then have run: "run = mid @ d' # takeWhile is_phone_char b" unfolding run_def rest_def by simp
  have "Suc (length mid) \<le> length (rev (dropWhile (\<lambda>c. \<not> is_digit c) (rev run)))"
    unfolding run using assms(2) by (intro rtrim_length) simp
  with assms(4) have "8 \<le> length (rev (dropWhile (\<lambda>c. \<not> is_digit c) (rev run)))" by simp
  with assms(1) show ?thesis
    unfolding phone_tail_def run_def rest_def by (simp add: Let_def)
qed

lemma phone_search_complete:
  assumes "is_digit d" "is_digit d'" "list_all is_phone_char mid" "7 \<le> length mid"
  shows "phone_search (a @ d # mid @ d' # b) \<noteq> None"
proof (induction a)
  case Nil
  have eq: "phone_match_at (d # mid @ d' # b) = phone_tail (d # mid @ d' # b)"
    using digit_not_plus [OF assms(1)] by (simp add: phone_match_at_def)
  from phone_tail_complete [OF assms, of b] obtain m where "phone_tail (d # mid @ d' # b) = Some m"
    by (cases "phone_tail (d # mid @ d' # b)") simp_all
  with eq have "phone_search (d # mid @ d' # b) = Some m" by simp
  then show ?case by simp
next
  case (Cons c a)
  show ?case
  proof (cases "phone_match_at (c # a @ d # mid @ d' # b)")
    case None
    then have "phone_search ((c # a) @ d # mid @ d' # b) = phone_search (a @ d # mid @ d' # b)" by simp
    with Cons show ?thesis by simp
  next
    case (Some m)
    then have "phone_search ((c # a) @ d # mid @ d' # b) = Some m" by simp
    then show ?thesis by simp
  qed
qed

lemma space_not_digit: "list_all (\<lambda>c. \<not> is_digit c \<and> c \<noteq> CHR ''+'') whitespace"
  by code_simp

lemma digit_not_space: "is_digit c \<Longrightarrow> \<not> is_space c"
  using space_not_digit unfolding is_space_def list_all_iff by blast

lemma plus_not_space: "\<not> is_space CHR ''+''"
  using space_not_digit unfolding is_space_def list_all_iff by blast

lemma strip_id:
  assumes "m \<noteq> []" "\<not> is_space (hd m)" "\<not> is_space (last m)"
  shows "strip m = m"
proof -
  from assms(1,2) have a: "dropWhile is_space m = m" by (cases m) simp_all
  from assms(1,3) have "\<not> is_space (hd (rev m))" by (simp add: hd_rev)
  with assms(1) have "dropWhile is_space (rev m) = rev m" by (cases "rev m") simp_all
  with a show ?thesis by (simp add: strip_def)
qed

lemma strip_phone:
  assumes "m = p @ d # mid @ [d']" "p = [] \<or> p = ''+''" "is_digit d" "is_digit d'"
  shows "strip m = m"
proof (rule strip_id)
  show "m \<noteq> []" using assms(1) by simp
  show "\<not> is_space (last m)" using assms(1,4) digit_not_space by simp
  show "\<not> is_space (hd m)"
  proof (cases "p = []")
    case True with assms(1,3) digit_not_space show ?thesis by simp
  next
    case False with assms(1,2) plus_not_space show ?thesis by simp
  qed
qed

lemma tel_loop_first:
  "\<forall>x\<in>set xs. \<exists>h. x = Returned h \<and> strip (remove_tel (case h of None \<Rightarrow> [] | Some v \<Rightarrow> v)) = [] \<Longrightarrow>
   strip (remove_tel (case a of None \<Rightarrow> [] | Some v \<Rightarrow> v)) \<noteq> [] \<Longrightarrow>
   tel_loop (xs @ Returned a # ys) = Some (strip (remove_tel (case a of None \<Rightarrow> [] | Some v \<Rightarrow> v)))"
proof (induction xs)
  case Nil then show ?case by (simp add: Let_def)
next
  case (Cons x xs)
  from Cons.prems(1) obtain h where h: "x = Returned h"
     "strip (remove_tel (case h of None \<Rightarrow> [] | Some v \<Rightarrow> v)) = []" by auto
  from Cons.prems(1) have "\<forall>x\<in>set xs. \<exists>h. x = Returned h \<and> strip (remove_tel (case h of None \<Rightarrow> [] | Some v \<Rightarrow> v)) = []"
    by simp
  from Cons.IH [OF this Cons.prems(2)] h show ?case by (simp add: Let_def)
qed

lemma body_number_sound:
  assumes "body_number page = Some r"
  shows "\<exists>t p d mid d'. body_text page = Returned t \<and> sublist r t \<and> r = p @ d # mid @ [d']
            \<and> (p = [] \<or> p = ''+'') \<and> is_digit d \<and> is_digit d'
            \<and> list_all is_phone_char mid \<and> 7 \<le> length mid"
proof -
  from assms obtain t where t: "body_text page = Returned t"
    by (cases "body_text page") (simp_all add: body_number_def)
  with assms obtain m where m: "phone_search t = Some m" "r = strip m"
    by (cases "phone_search t") (simp_all add: body_number_def)
  from phone_search_sound [OF m(1)] obtain p d mid d' where
    x: "sublist m t" "m = p @ d # mid @ [d']" "p = [] \<or> p = ''+''" "is_digit d" "is_digit d'"
       "list_all is_phone_char mid" "7 \<le> length mid" by blast
  from strip_phone [OF x(2,3,4,5)] m(2) have "r = m" by simp
  with t x show ?thesis by blast
qed

lemma body_number_None:
  "body_number page = None \<longleftrightarrow>
     (body_text page = Raised \<or>
      (\<exists>t. body_text page = Returned t \<and>
         \<not> (\<exists>a d mid d' b. t = a @ d # mid @ d' # b \<and> is_digit d \<and> is_digit d'
                \<and> list_all is_phone_char mid \<and> 7 \<le> length mid)))"
proof (cases "body_text page")
  case Raised
  then show ?thesis by (simp add: body_number_def)
next
  case (Returned t)
  have "phone_search t = None \<longleftrightarrow>
        \<not> (\<exists>a d mid d' b. t = a @ d # mid @ d' # b \<and> is_digit d \<and> is_digit d'
                \<and> list_all is_phone_char mid \<and> 7 \<le> length mid)"
  proof
    assume n: "phone_search t = None"
    show "\<not> (\<exists>a d mid d' b. t = a @ d # mid @ d' # b \<and> is_digit d \<and> is_digit d'
                \<and> list_all is_phone_char mid \<and> 7 \<le> length mid)"
    proof
      assume "\<exists>a d mid d' b. t = a @ d # mid @ d' # b \<and> is_digit d \<and> is_digit d'
                \<and> list_all is_phone_char mid \<and> 7 \<le> length mid"
      then obtain a d mid d' b where "t = a @ d # mid @ d' # b" "is_digit d" "is_digit d'"
                "list_all is_phone_char mid" "7 \<le> length mid" by blast
      with phone_search_complete [of d d' mid a b] n show False by simp
    qed
  next
    assume no: "\<not> (\<exists>a d mid d' b. t = a @ d # mid @ d' # b \<and> is_digit d \<and> is_digit d'
                \<and> list_all is_phone_char mid \<and> 7 \<le> length mid)"
    show "phone_search t = None"
    proof (rule ccontr)
      assume "phone_search t \<noteq> None"
      then obtain m where "phone_search t = Some m" by (cases "phone_search t") simp_all
      from phone_search_sound [OF this] obtain p d mid d' where
        x: "sublist m t" "m = p @ d # mid @ [d']" "is_digit d" "is_digit d'"
           "list_all is_phone_char mid" "7 \<le> length mid" by blast
      from x(1) obtain a b where "t = a @ m @ b" unfolding sublist_def by blast
      with x(2) have "t = (a @ p) @ d # mid @ d' # b" by simp
      with x no show False by blast
    qed
  qed
  then have key: "phone_search t = None \<longleftrightarrow>
        \<not> (\<exists>a d mid d' b. t = a @ d # mid @ d' # b \<and> is_digit d \<and> is_digit d'
                \<and> list_all is_phone_char mid \<and> 7 \<le> length mid)" .
  have lhs: "body_number page = None \<longleftrightarrow> phone_search t = None"
    using Returned by (cases "phone_search t") (simp_all add: body_number_def)
  have rhs: "(body_text page = Raised \<or>
      (\<exists>t. body_text page = Returned t \<and>
         \<not> (\<exists>a d mid d' b. t = a @ d # mid @ d' # b \<and> is_digit d \<and> is_digit d'
                \<and> list_all is_phone_char mid \<and> 7 \<le> length mid)))
      \<longleftrightarrow> \<not> (\<exists>a d mid d' b. t = a @ d # mid @ d' # b \<and> is_digit d \<and> is_digit d'
                \<and> list_all is_phone_char mid \<and> 7 \<le> length mid)"
    using Returned by simp
  show ?thesis unfolding lhs rhs by (rule key)
qed

text \<open>
  C10 (as amended). When the \<open>tel:\<close> links are read without a fault up to the first one
  whose \<open>href\<close>, with \<open>tel:\<close> removed and stripped, is not empty, that number is the
  result. When the links give no number, a result is a substring of the body text made of an
  optional plus sign, a digit, at least seven characters that are digits or separators
  (hyphen, parentheses, space, full stop) and a final digit: at least nine characters after
  the plus sign, of which at least two are digits. The result is \<open>None\<close> exactly when the
  links give no number and the body text cannot be read or has no such substring.
\<close>

theorem extract_phone_result:
  "(\<forall>ls xs a ys.
      tel_links page = Returned ls \<and> ls = xs @ Returned a # ys
      \<and> (\<forall>x\<in>set xs. \<exists>h. x = Returned h \<and> strip (remove_tel (case h of None \<Rightarrow> [] | Some v \<Rightarrow> v)) = [])
      \<and> strip (remove_tel (case a of None \<Rightarrow> [] | Some v \<Rightarrow> v)) \<noteq> []
      \<longrightarrow> extract_phone page = Some (strip (remove_tel (case a of None \<Rightarrow> [] | Some v \<Rightarrow> v))))
   \<and> (\<forall>r. tel_number page = None \<and> extract_phone page = Some r
      \<longrightarrow> (\<exists>t p d mid d'. body_text page = Returned t \<and> sublist r t \<and> r = p @ d # mid @ [d']
            \<and> (p = [] \<or> p = ''+'') \<and> is_digit d \<and> is_digit d'
            \<and> list_all is_phone_char mid \<and> 7 \<le> length mid))
   \<and> (extract_phone page = None \<longleftrightarrow>
        tel_number page = None \<and>
        (body_text page = Raised \<or>
         (\<exists>t. body_text page = Returned t \<and>
            \<not> (\<exists>a d mid d' b. t = a @ d # mid @ d' # b \<and> is_digit d \<and> is_digit d'
                   \<and> list_all is_phone_char mid \<and> 7 \<le> length mid))))"
proof (intro conjI allI impI)
  fix ls xs a ys
  assume h: "tel_links page = Returned ls \<and> ls = xs @ Returned a # ys
      \<and> (\<forall>x\<in>set xs. \<exists>h. x = Returned h \<and> strip (remove_tel (case h of None \<Rightarrow> [] | Some v \<Rightarrow> v)) = [])
      \<and> strip (remove_tel (case a of None \<Rightarrow> [] | Some v \<Rightarrow> v)) \<noteq> []"
  then have "tel_loop (xs @ Returned a # ys) = Some (strip (remove_tel (case a of None \<Rightarrow> [] | Some v \<Rightarrow> v)))"
    by (intro tel_loop_first) blast+
  with h show "extract_phone page = Some (strip (remove_tel (case a of None \<Rightarrow> [] | Some v \<Rightarrow> v)))"
    by (simp add: extract_phone_def tel_number_def)
next
  fix r
  assume "tel_number page = None \<and> extract_phone page = Some r"
  then have "body_number page = Some r" by (elim conjE) (simp add: extract_phone_def)
  then show "\<exists>t p d mid d'. body_text page = Returned t \<and> sublist r t \<and> r = p @ d # mid @ [d']
            \<and> (p = [] \<or> p = ''+'') \<and> is_digit d \<and> is_digit d'
            \<and> list_all is_phone_char mid \<and> 7 \<le> length mid"
    by (rule body_number_sound)
next
  have "extract_phone page = None \<longleftrightarrow> tel_number page = None \<and> body_number page = None"
    by (cases "tel_number page") (simp_all add: extract_phone_def)
  then show "extract_phone page = None \<longleftrightarrow>
        tel_number page = None \<and>
        (body_text page = Raised \<or>
         (\<exists>t. body_text page = Returned t \<and>
            \<not> (\<exists>a d mid d' b. t = a @ d # mid @ d' # b \<and> is_digit d \<and> is_digit d'
                   \<and> list_all is_phone_char mid \<and> 7 \<le> length mid)))"
    by (simp only: body_number_None)
qed

theorem extract_phone_witness:
  "extract_phone \<lparr>tel_links = Returned [Returned (Some ''tel:''), Returned (Some ''tel:+1-305-555-0100'')],
                  body_text = Returned ''Call 305 555 0199''\<rparr> = Some ''+1-305-555-0100''
   \<and> (\<exists>t p d mid d'.
         body_text \<lparr>tel_links = Returned [], body_text = Returned ''Call +1 (305) 555-0100 today''\<rparr> = Returned t
         \<and> sublist ''+1 (305) 555-0100'' t \<and> ''+1 (305) 555-0100'' = p @ d # mid @ [d']
         \<and> (p = [] \<or> p = ''+'') \<and> is_digit d \<and> is_digit d'
         \<and> list_all is_phone_char mid \<and> 7 \<le> length mid)"
proof -
  let ?page = "\<lparr>tel_links = Returned [Returned (Some ''tel:''), Returned (Some ''tel:+1-305-555-0100'')],
                  body_text = Returned ''Call 305 555 0199''\<rparr>"
  let ?page2 = "\<lparr>tel_links = Returned [], body_text = Returned ''Call +1 (305) 555-0100 today''\<rparr>"
  have e1: "strip (remove_tel (case Some ''tel:'' of None \<Rightarrow> [] | Some v \<Rightarrow> v)) = []" by code_simp
  have e2: "strip (remove_tel (case Some ''tel:+1-305-555-0100'' of None \<Rightarrow> [] | Some v \<Rightarrow> v)) = ''+1-305-555-0100''"
    by code_simp
  have A: "extract_phone ?page = Some (strip (remove_tel (case Some ''tel:+1-305-555-0100'' of None \<Rightarrow> [] | Some v \<Rightarrow> v)))"
    by (rule extract_phone_result [THEN conjunct1, rule_format,
          where xs = "[Returned (Some ''tel:'')]" and ys = "[]"
            and ls = "[Returned (Some ''tel:''), Returned (Some ''tel:+1-305-555-0100'')]"])
       (use e1 e2 in simp)
  have t0: "tel_number ?page2 = None" by code_simp
  have x0: "extract_phone ?page2 = Some ''+1 (305) 555-0100''" by code_simp
  have B: "\<exists>t p d mid d'. body_text ?page2 = Returned t
         \<and> sublist ''+1 (305) 555-0100'' t \<and> ''+1 (305) 555-0100'' = p @ d # mid @ [d']
         \<and> (p = [] \<or> p = ''+'') \<and> is_digit d \<and> is_digit d'
         \<and> list_all is_phone_char mid \<and> 7 \<le> length mid"
    by (rule extract_phone_result [THEN conjunct2, THEN conjunct1, rule_format]) (use t0 x0 in simp)
  from A e2 B show ?thesis by simp
qed

text \<open>
  C10 as stated fails: the pattern counts characters, not digits. A range of years is
  returned as a phone number although it has eight digits.
\<close>

theorem extract_phone_few_digits_counterexample:
  "extract_phone \<lparr>tel_links = Returned [], body_text = Returned ''Open 2019 - 2020.''\<rparr> = Some ''2019 - 2020''
   \<and> sublist ''2019 - 2020'' ''Open 2019 - 2020.''
   \<and> length (filter is_digit ''2019 - 2020'') = 8"
  by code_simp

section \<open>The amenities page: properties\<close>

lemma amenities_data_truthy:
  "truthy (dict_get (amenities_data v) ''amenities'') \<longleftrightarrow> av_amenities v \<notin> {None, Some []}"
  "truthy (dict_get (amenities_data v) ''parking'') \<longleftrightarrow> av_parking_text v \<notin> {None, Some []}"
  "truthy (dict_get (amenities_data v) ''overview'') \<longleftrightarrow> av_overview v \<notin> {None, Some []}"
  "truthy (dict_get (amenities_data v) ''nearby'') \<longleftrightarrow> av_nearby v \<notin> {None, Some []}"
  "truthy (dict_get (amenities_data v) ''airport'') \<longleftrightarrow> av_airport v \<notin> {None, Some []}"
  by (simp_all add: amenities_data_def dict_get_def opt_list_def opt_dict_def
        scrape_parking_from_page_def split: option.split)

lemma amenities_data_phone:
  "dict_get (amenities_data v) ''phone'' = opt_str (extract_phone (av_phone v))"
  by (simp add: amenities_data_def dict_get_def)

text \<open>
  C6 (as amended). The aggregate step returns the dictionary of the six probe results when
  the "view all amenities" link is found with a non-empty \<open>href\<close>, the navigation raises
  nothing, and at least one of the five probes amenities, parking, overview, nearby and
  airport produced data; otherwise it returns \<open>None\<close>. So it returns \<open>None\<close> when those
  five probes are all empty or null, whatever the phone probe returned.
\<close>

theorem open_amenities_page_and_scrape_result:
  "(\<forall>data. open_amenities_page_and_scrape v = Some data \<longrightarrow> data = amenities_data v)
   \<and> (open_amenities_page_and_scrape v = None \<longleftrightarrow>
        \<not> (\<exists>buttons btn href. av_buttons v = Returned buttons
              \<and> find_link [''view all amenities''] buttons = Returned (Some btn)
              \<and> snd btn = Returned (Some href) \<and> href \<noteq> [] \<and> av_nav_ok v)
        \<or> (av_amenities v \<in> {None, Some []} \<and> av_parking_text v \<in> {None, Some []}
            \<and> av_overview v \<in> {None, Some []} \<and> av_nearby v \<in> {None, Some []}
            \<and> av_airport v \<in> {None, Some []}))"
proof -
  define five where "five \<longleftrightarrow>
     truthy (dict_get (amenities_data v) ''amenities'') \<or> truthy (dict_get (amenities_data v) ''parking'')
     \<or> truthy (dict_get (amenities_data v) ''overview'') \<or> truthy (dict_get (amenities_data v) ''nearby'')
     \<or> truthy (dict_get (amenities_data v) ''airport'')"
  define reached where "reached \<longleftrightarrow>
     (\<exists>buttons btn href. av_buttons v = Returned buttons
              \<and> find_link [''view all amenities''] buttons = Returned (Some btn)
              \<and> snd btn = Returned (Some href) \<and> href \<noteq> [] \<and> av_nav_ok v)"
  have eq: "open_amenities_page_and_scrape v = (if reached \<and> five then Some (amenities_data v) else None)"
    unfolding open_amenities_page_and_scrape_def reached_def five_def Let_def
    by (simp split: outcome.split option.split)
  have five_iff: "five \<longleftrightarrow> \<not> (av_amenities v \<in> {None, Some []} \<and> av_parking_text v \<in> {None, Some []}
            \<and> av_overview v \<in> {None, Some []} \<and> av_nearby v \<in> {None, Some []}
            \<and> av_airport v \<in> {None, Some []})"
    unfolding five_def amenities_data_truthy by blast
  have a: "\<forall>data. open_amenities_page_and_scrape v = Some data \<longrightarrow> data = amenities_data v"
    unfolding eq by simp
  have b: "open_amenities_page_and_scrape v = None \<longleftrightarrow> \<not> reached \<or> \<not> five"
    unfolding eq by simp
  from a b show ?thesis unfolding five_iff reached_def by blast
qed

theorem open_amenities_page_and_scrape_witness:
  "[(''amenities'', PList [''Pool'']), (''parking'', PNone), (''overview'', PNone),
    (''nearby'', PNone), (''airport'', PNone), (''phone'', PNone)]
     = amenities_data \<lparr>av_buttons = Returned [(Returned ''Book now'', Returned None),
                                               (Returned '' View all amenities '', Returned (Some ''https://www.ihg.com/a''))],
          av_nav_ok = True, av_amenities = Some [''Pool''], av_parking_text = None, av_overview = None,
          av_nearby = None, av_airport = None,
          av_phone = \<lparr>tel_links = Raised, body_text = Raised\<rparr>\<rparr>
   \<and> open_amenities_page_and_scrape
         \<lparr>av_buttons = Returned [(Returned ''View all amenities'', Returned (Some ''https://www.ihg.com/a''))],
          av_nav_ok = True, av_amenities = None, av_parking_text = Some [], av_overview = None,
          av_nearby = Some [], av_airport = None,
          av_phone = \<lparr>tel_links = Raised, body_text = Raised\<rparr>\<rparr> = None"
proof -
  let ?v = "\<lparr>av_buttons = Returned [(Returned ''Book now'', Returned None),
                                               (Returned '' View all amenities '', Returned (Some ''https://www.ihg.com/a''))],
          av_nav_ok = True, av_amenities = Some [''Pool''], av_parking_text = None, av_overview = None,
          av_nearby = None, av_airport = None,
          av_phone = \<lparr>tel_links = Raised, body_text = Raised\<rparr>\<rparr>"
  let ?w = "\<lparr>av_buttons = Returned [(Returned ''View all amenities'', Returned (Some ''https://www.ihg.com/a''))],
          av_nav_ok = True, av_amenities = None, av_parking_text = Some [], av_overview = None,
          av_nearby = Some [], av_airport = None,
          av_phone = \<lparr>tel_links = Raised, body_text = Raised\<rparr>\<rparr>"
  have h: "open_amenities_page_and_scrape ?v =
      Some [(''amenities'', PList [''Pool'']), (''parking'', PNone), (''overview'', PNone),
            (''nearby'', PNone), (''airport'', PNone), (''phone'', PNone)]"
    by code_simp
  have A: "[(''amenities'', PList [''Pool'']), (''parking'', PNone), (''overview'', PNone),
            (''nearby'', PNone), (''airport'', PNone), (''phone'', PNone)] = amenities_data ?v"
    by (rule open_amenities_page_and_scrape_result [THEN conjunct1, rule_format, OF h])
  have e: "av_amenities ?w \<in> {None, Some []} \<and> av_parking_text ?w \<in> {None, Some []}
            \<and> av_overview ?w \<in> {None, Some []} \<and> av_nearby ?w \<in> {None, Some []}
            \<and> av_airport ?w \<in> {None, Some []}"
    by simp
  have B: "open_amenities_page_and_scrape ?w = None"
    by (rule open_amenities_page_and_scrape_result [THEN conjunct2, THEN iffD2, OF disjI2, OF e])
  from A B show ?thesis by (rule conjI)
qed

text \<open>
  C6 as stated fails for the phone probe. On this amenities page the link is there and
  the navigation works, the page shows a telephone link and nothing else: the phone probe
  returns the number, the five other probes return nothing, and the aggregate is \<open>None\<close>.
\<close>

theorem open_amenities_phone_only_counterexample:
  "dict_get (amenities_data
         \<lparr>av_buttons = Returned [(Returned ''View all amenities'', Returned (Some ''https://www.ihg.com/a''))],
          av_nav_ok = True, av_amenities = None, av_parking_text = None, av_overview = None,
          av_nearby = None, av_airport = None,
          av_phone = \<lparr>tel_links = Returned [Returned (Some ''tel:+1-305-555-0100'')],
                      body_text = Returned []\<rparr>\<rparr>) ''phone'' = PStr ''+1-305-555-0100''
   \<and> open_amenities_page_and_scrape
         \<lparr>av_buttons = Returned [(Returned ''View all amenities'', Returned (Some ''https://www.ihg.com/a''))],
          av_nav_ok = True, av_amenities = None, av_parking_text = None, av_overview = None,
          av_nearby = None, av_airport = None,
          av_phone = \<lparr>tel_links = Returned [Returned (Some ''tel:+1-305-555-0100'')],
                      body_text = Returned []\<rparr>\<rparr> = None"
  by code_simp

section \<open>The card merge: what happens to the card amenities\<close>

text \<open>
  C2 (a defect of the code). The card shows the amenities Pool and Pets allowed, and
  opening the detail page fails. \<open>scrape_hotel_detail\<close> then returns its dictionary of
  nine keys, all \<open>None\<close>, \<open>amenities_json\<close> among them, and
  \<open>hotel_record.update(detail)\<close> writes that \<open>None\<close> over the card value: the record
  that \<open>scrape_city\<close> returns has the name, address, price and rating of the card and no
  amenities. The second card has a detail page that opens and shows nothing: the result is
  the same.
\<close>

theorem scrape_card_amenities_lost:
  "scrape_card (\<lambda>u. Some ''/hotels/us/en/miami-beach/miasc/hoteldetail'') (\<lambda>s. None)
       \<lparr>city_name = ''Miami'', city_url = ''https://www.ihg.com/explore/miami''\<rparr>
       \<lparr>cv_title = Returned (Returned ''Kimpton Surfcomber'',
                             Returned (Some ''https://www.ihg.com/hotels/us/en/miami-beach/miasc/hoteldetail'')),
        cv_address = Returned (Some (Returned ''1717 Collins Avenue'')),
        cv_amenity_labels = Returned [Returned ''Pool'', Returned ''Pets allowed''],
        cv_price = Returned (Some (Returned ''189'')),
        cv_currency = Returned (Some (Returned ''USD'')),
        cv_rating = Returned (Some (Returned ''4.5'')),
        cv_now = ''2024-05-01T10:00:00'',
        cv_detail = \<lparr>dv_tab_ok = True, dv_nav_ok = False, dv_close_ok = True,
                     dv_description = None, dv_highlights = None,
                     dv_phone = \<lparr>tel_links = Raised, body_text = Raised\<rparr>,
                     dv_amenities = \<lparr>av_buttons = Raised, av_nav_ok = False, av_amenities = None,
                        av_parking_text = None, av_overview = None, av_nearby = None, av_airport = None,
                        av_phone = \<lparr>tel_links = Raised, body_text = Raised\<rparr>\<rparr>,
                     dv_pets = \<lparr>pv_links = Raised, pv_nav_ok = False, pv_policy = None\<rparr>\<rparr>\<rparr>
     = Inr (Some [(''hotel_code'', PStr ''miasc''), (''hotel_name'', PStr ''Kimpton Surfcomber''),
                  (''address'', PStr ''1717 Collins Avenue''), (''phone'', PNone),
                  (''rating'', PStr ''4.5''), (''description'', PNone),
                  (''card_price'', PStr ''189 USD''), (''overview_table_json'', PNone),
                  (''pets_json'', PNone), (''parking_json'', PNone), (''amenities_json'', PNone),
                  (''nearby_json'', PNone), (''airport_json'', PNone), (''is_pet_friendly'', PNone),
                  (''last_updated'', PStr ''2024-05-01T10:00:00'')])
   \<and> dict_get (base_record (\<lambda>u. Some ''/hotels/us/en/miami-beach/miasc/hoteldetail'')
           \<lparr>city_name = ''Miami'', city_url = ''https://www.ihg.com/explore/miami''\<rparr>
           ''2024-05-01T10:00:00'' ''https://www.ihg.com/hotels/us/en/miami-beach/miasc/hoteldetail''
           (Some ''Kimpton Surfcomber'') (Some ''1717 Collins Avenue'') (Some ''4.5'')
           (card_amenities_loop [Returned ''Pool'', Returned ''Pets allowed''])
           (Some ''189'') (Some ''USD'')) ''amenities_json''
       = PStr (json_dumps (PList [''Pool'', ''Pets allowed'']))
   \<and> PStr (json_dumps (PList [''Pool'', ''Pets allowed''])) \<noteq> PNone
   \<and> scrape_card (\<lambda>u. Some ''/hotels/us/en/miami-beach/miasc/hoteldetail'') (\<lambda>s. None)
       \<lparr>city_name = ''Miami'', city_url = ''https://www.ihg.com/explore/miami''\<rparr>
       \<lparr>cv_title = Returned (Returned ''Kimpton Surfcomber'',
                             Returned (Some ''https://www.ihg.com/hotels/us/en/miami-beach/miasc/hoteldetail'')),
        cv_address = Returned (Some (Returned ''1717 Collins Avenue'')),
        cv_amenity_labels = Returned [Returned ''Pool'', Returned ''Pets allowed''],
        cv_price = Returned (Some (Returned ''189'')),
        cv_currency = Returned (Some (Returned ''USD'')),
        cv_rating = Returned (Some (Returned ''4.5'')),
        cv_now = ''2024-05-01T10:00:00'',
        cv_detail = \<lparr>dv_tab_ok = True, dv_nav_ok = True, dv_close_ok = True,
                     dv_description = None, dv_highlights = None,
                     dv_phone = \<lparr>tel_links = Returned [], body_text = Returned []\<rparr>,
                     dv_amenities = \<lparr>av_buttons = Returned [], av_nav_ok = True, av_amenities = None,
                        av_parking_text = None, av_overview = None, av_nearby = None, av_airport = None,
                        av_phone = \<lparr>tel_links = Returned [], body_text = Returned []\<rparr>\<rparr>,
                     dv_pets = \<lparr>pv_links = Returned [], pv_nav_ok = True, pv_policy = None\<rparr>\<rparr>\<rparr>
     = Inr (Some [(''hotel_code'', PStr ''miasc''), (''hotel_name'', PStr ''Kimpton Surfcomber''),
                  (''address'', PStr ''1717 Collins Avenue''), (''phone'', PNone),
                  (''rating'', PStr ''4.5''), (''description'', PNone),
                  (''card_price'', PStr ''189 USD''), (''overview_table_json'', PNone),
                  (''pets_json'', PNone), (''parking_json'', PNone), (''amenities_json'', PNone),
                  (''nearby_json'', PNone), (''airport_json'', PNone), (''is_pet_friendly'', PStr ''false''),
                  (''last_updated'', PStr ''2024-05-01T10:00:00'')])"
  by code_simp

section \<open>The detail page and the cards: lemmas\<close>

lemma map_of_dict_set: "map_of (dict_set d k v) = (map_of d)(k \<mapsto> v)"
  by (induction d) (auto simp: fun_eq_iff)

lemma dict_get_set: "dict_get (dict_set d k v) k' = (if k' = k then v else dict_get d k')"
  by (simp add: dict_get_def map_of_dict_set)


lemma dict_set_same_keys: "k \<in> fst ` set d \<Longrightarrow> map fst (dict_set d k v) = map fst d"
  by (simp add: dict_set_keys)



lemma take_if_get:
  "dict_get (take_if data k key out) k' =
     (if k' = key \<and> truthy (dict_get data k) then dict_get data k else dict_get out k')"
  by (simp add: take_if_def dict_get_set)

lemma take_if_keys: "key \<in> fst ` set out \<Longrightarrow> map fst (take_if data k key out) = map fst out"
  by (simp add: take_if_def dict_set_same_keys)

lemma merge_amenities_data_keys:
  assumes "{''amenities_json'', ''parking_json'', ''overview_table_json'', ''nearby_json'',
            ''airport_json'', ''phone''} \<subseteq> fst ` set out"
  shows "map fst (merge_amenities_data a out) = map fst out"
proof -
  have s: "fst ` set d = set (map fst d)" for d :: hotel by simp
  show ?thesis using assms unfolding merge_amenities_data_def Let_def
    by (simp add: take_if_keys dict_set_same_keys s del: set_map split: option.split)
qed

lemma merge_amenities_data_get:
  assumes "k \<notin> {''amenities_json'', ''parking_json'', ''overview_table_json'', ''nearby_json'',
            ''airport_json'', ''phone''}"
  shows "dict_get (merge_amenities_data a out) k = dict_get out k"
  using assms unfolding merge_amenities_data_def Let_def
  by (simp add: take_if_get dict_get_set split: option.split)

lemma detail_out_keys:
  "map fst detail_out = [''phone'', ''description'', ''overview_table_json'', ''pets_json'',
     ''parking_json'', ''amenities_json'', ''nearby_json'', ''airport_json'', ''is_pet_friendly'']"
  by (simp add: detail_out_def)

lemma detail_keys_set:
  assumes "map fst d = map fst detail_out" and "k \<in> set (map fst detail_out)"
  shows "map fst (dict_set d k v) = map fst detail_out"
proof -
  have "fst ` set d = set (map fst d)" by simp
  with assms have "k \<in> fst ` set d" by simp
  then show ?thesis using assms(1) by (simp add: dict_set_same_keys)
qed

lemma detail_keys_merge:
  assumes "map fst out = map fst detail_out"
  shows "map fst (merge_amenities_data a out) = map fst detail_out"
proof -
  have "fst ` set out = set (map fst out)" by simp
  then have "fst ` set out = set (map fst detail_out)" using assms by simp
  then have "{''amenities_json'', ''parking_json'', ''overview_table_json'', ''nearby_json'',
            ''airport_json'', ''phone''} \<subseteq> fst ` set out"
    by (simp add: detail_out_keys)
  then show ?thesis using assms by (simp add: merge_amenities_data_keys)
qed

lemma open_amenities_Some:
  "open_amenities_page_and_scrape v = Some data \<Longrightarrow> data = amenities_data v"
  unfolding open_amenities_page_and_scrape_def Let_def
  by (simp split: outcome.splits option.splits if_splits)

lemma amenities_data_values:
  "dict_get (amenities_data v) ''amenities'' \<in> {PNone} \<union> range PList \<union> range PDict"
  "dict_get (amenities_data v) ''parking'' \<in> {PNone} \<union> range PList \<union> range PDict"
  "dict_get (amenities_data v) ''overview'' \<in> {PNone} \<union> range PList \<union> range PDict"
  "dict_get (amenities_data v) ''nearby'' \<in> {PNone} \<union> range PList \<union> range PDict"
  "dict_get (amenities_data v) ''airport'' \<in> {PNone} \<union> range PList \<union> range PDict"
  by (simp_all add: amenities_data_def dict_get_def opt_list_def opt_dict_def
        scrape_parking_from_page_def split: option.split)

lemma merge_amenities_json:
  assumes "dict_get out k \<in> {PNone} \<union> range PList \<union> range PDict" and "k \<noteq> ''phone''"
  shows "dict_get (merge_amenities_data (open_amenities_page_and_scrape v) out) k
           \<in> {PNone} \<union> range PList \<union> range PDict"
proof (cases "open_amenities_page_and_scrape v")
  case None
  with assms show ?thesis by (simp add: merge_amenities_data_def)
next
  case (Some data)
  then have d: "data = amenities_data v" by (rule open_amenities_Some)
  note V = amenities_data_values [of v]
  show ?thesis unfolding Some d merge_amenities_data_def Let_def
    using assms V by (simp add: take_if_get dict_get_set del: Un_iff Un_insert_left)
qed




lemma infer_pet_friendly_returns:
  assumes "dict_get out ''description'' = opt_str x"
  shows "\<exists>b. infer_pet_friendly json_loads out = Inr b"
proof -
  have "\<exists>s. str_or_empty (opt_str x) = Inr s"
    by (cases x) (simp_all add: opt_str_def)
  then obtain s where s: "str_or_empty (dict_get out ''description'') = Inr s"
    using assms by auto
  show ?thesis unfolding infer_pet_friendly_def Let_def s
    by (auto split: pyval.split option.split)
qed




lemma scrape_hotel_detail_cases:
  obtains
    (skip) "scrape_hotel_detail json_loads url view = Inr detail_out"
           "url = [] \<or> \<not> dv_nav_ok view"
  | (fault) "scrape_hotel_detail json_loads url view = Inl WebDriverError"
  | (visit) out4 where
      "url \<noteq> []" "dv_tab_ok view" "dv_nav_ok view"
      "map fst out4 = map fst detail_out"
      "dict_get out4 ''description'' = opt_str (dv_description view)"
      "dict_get out4 ''pets_json'' = PNone"
      "\<forall>k\<in>set json_keys. dict_get out4 k \<in> {PNone} \<union> range PList \<union> range PDict"
      "scrape_hotel_detail json_loads url view =
         (if truthy (open_pet_policy_if_available (dv_pets view))
          then Inr (dict_set (dict_set out4 ''pets_json'' (open_pet_policy_if_available (dv_pets view)))
                      ''is_pet_friendly'' (PBool True))
          else (case infer_pet_friendly json_loads out4 of
                  Inl e \<Rightarrow> Inl e
                | Inr b \<Rightarrow> Inr (dict_set out4 ''is_pet_friendly'' (PBool b))))"
proof (cases "url = [] \<or> \<not> dv_tab_ok view \<or> \<not> dv_nav_ok view")
  case True
  then have "(scrape_hotel_detail json_loads url view = Inr detail_out \<and> (url = [] \<or> \<not> dv_nav_ok view))
      \<or> scrape_hotel_detail json_loads url view = Inl WebDriverError"
    by (auto simp: scrape_hotel_detail_def)
  then show ?thesis using skip fault by blast
next
  case False
  then have u: "url \<noteq> []" and t: "dv_tab_ok view" and n: "dv_nav_ok view" by simp_all
  define out1 where "out1 = dict_set detail_out ''description'' (opt_str (dv_description view))"
  define out2 where "out2 = (if truthy (opt_list (dv_highlights view))
       then dict_set out1 ''amenities_json'' (opt_list (dv_highlights view)) else out1)"
  define out3 where "out3 = (if truthy (opt_str (extract_phone (dv_phone view)))
       then dict_set out2 ''phone'' (opt_str (extract_phone (dv_phone view))) else out2)"
  define out4 where "out4 = merge_amenities_data (open_amenities_page_and_scrape (dv_amenities view)) out3"
  have k1: "map fst out1 = map fst detail_out"
    unfolding out1_def by (rule detail_keys_set) (simp_all add: detail_out_keys)
  have k2: "map fst out2 = map fst detail_out"
    unfolding out2_def using k1 by (simp add: detail_keys_set detail_out_keys)
  have k3: "map fst out3 = map fst detail_out"
    unfolding out3_def using k2 by (simp add: detail_keys_set detail_out_keys)
  have k4: "map fst out4 = map fst detail_out"
    unfolding out4_def using k3 by (rule detail_keys_merge)
  have g3: "dict_get out3 k = dict_get detail_out k"
    if "k \<notin> {''description'', ''amenities_json'', ''phone''}" for k
    using that unfolding out3_def out2_def out1_def by (simp add: dict_get_set)
  have d3: "dict_get out3 ''description'' = opt_str (dv_description view)"
    unfolding out3_def out2_def out1_def by (simp add: dict_get_set)
  have a3: "dict_get out3 ''amenities_json'' \<in> {PNone} \<union> range PList \<union> range PDict"
    unfolding out3_def out2_def out1_def
    by (cases "dv_highlights view") (simp_all add: dict_get_set opt_list_def detail_out_def dict_get_def)
  have d4: "dict_get out4 ''description'' = opt_str (dv_description view)"
    unfolding out4_def by (simp add: merge_amenities_data_get d3)
  have p4: "dict_get out4 ''pets_json'' = PNone"
    unfolding out4_def by (simp add: merge_amenities_data_get g3) (simp add: detail_out_def dict_get_def)
  have j3: "dict_get out3 k \<in> {PNone} \<union> range PList \<union> range PDict" if "k \<in> set json_keys" for k
  proof (cases "k = ''amenities_json''")
    case True with a3 show ?thesis by simp
  next
    case False
    with that have "k \<notin> {''description'', ''amenities_json'', ''phone''}" by (auto simp: json_keys_def)
    from g3 [OF this] that show ?thesis by (auto simp: json_keys_def detail_out_def dict_get_def)
  qed
  have j4: "\<forall>k\<in>set json_keys. dict_get out4 k \<in> {PNone} \<union> range PList \<union> range PDict"
  proof
    fix k assume k: "k \<in> set json_keys"
    then have "k \<noteq> ''phone''" by (auto simp: json_keys_def)
    with j3 [OF k] show "dict_get out4 k \<in> {PNone} \<union> range PList \<union> range PDict"
      unfolding out4_def by (rule merge_amenities_json)
  qed
  have e: "scrape_hotel_detail json_loads url view =
         (if truthy (open_pet_policy_if_available (dv_pets view))
          then Inr (dict_set (dict_set out4 ''pets_json'' (open_pet_policy_if_available (dv_pets view)))
                      ''is_pet_friendly'' (PBool True))
          else (case infer_pet_friendly json_loads out4 of
                  Inl e \<Rightarrow> Inl e
                | Inr b \<Rightarrow> Inr (dict_set out4 ''is_pet_friendly'' (PBool b))))"
    unfolding scrape_hotel_detail_def Let_def out4_def out3_def out2_def out1_def
    using u t n by simp
  from u t n k4 d4 p4 j4 e show ?thesis by (rule visit)
qed

lemma scrape_hotel_detail_error:
  assumes "scrape_hotel_detail json_loads url view = Inl e"
  shows "e = WebDriverError"
proof (cases json_loads url view rule: scrape_hotel_detail_cases)
  case skip with assms show ?thesis by simp
next
  case fault with assms show ?thesis by simp
next
  case (visit out4)
  from infer_pet_friendly_returns [OF visit(5)] obtain b
    where "infer_pet_friendly json_loads out4 = Inr b" by blast
  with visit(8) assms show ?thesis by (simp split: if_splits)
qed






lemma scrape_card_returns:
  "\<exists>x. scrape_card urlparse_path json_loads c hcard = Inr x"
proof -
  have "\<exists>x. (case scrape_hotel_detail json_loads url view of
                Inl e \<Rightarrow> if e = WebDriverError then Inr None else Inl e
              | Inr detail \<Rightarrow> Inr (Some (f detail))) = (Inr x :: error + hotel option)" for url view f
  proof (cases "scrape_hotel_detail json_loads url view")
    case (Inl e)
    from scrape_hotel_detail_error [OF this] Inl show ?thesis by simp
  next
    case (Inr detail) then show ?thesis by simp
  qed
  then show ?thesis unfolding scrape_card_def Let_def
    by (simp split: outcome.split)
qed






section \<open>The pet-friendly flag\<close>



end
